theory Spec2Isabelle
  imports Main "HOL-Library.Sublist"
begin

section \<open>Strings\<close>

text \<open>
  A Go string is modelled by the list of its characters. The program reads strings by
  position only to compare with the ASCII characters \<open>/\<close>, \<open>!\<close>, \<open>#\<close> and the
  glob metacharacters and to cut at such positions; on well-formed text this is the
  same as working on the sequence of characters, which is also what the regular
  expression engine reads. The path functions are those of a POSIX system, where the
  separator is \<open>/\<close>.
\<close>

abbreviation slash :: char where "slash \<equiv> CHR ''/''"
abbreviation bslash :: char where "bslash \<equiv> CHR 0x5C"
abbreviation newline :: char where "newline \<equiv> CHR 0x0A"

definition HasPrefix :: "string \<Rightarrow> string \<Rightarrow> bool" where
  "HasPrefix s p = prefix p s"

definition HasSuffix :: "string \<Rightarrow> string \<Rightarrow> bool" where
  "HasSuffix s p = suffix p s"

definition Contains :: "string \<Rightarrow> string \<Rightarrow> bool" where
  "Contains s sub = sublist sub s"

definition ContainsAny :: "string \<Rightarrow> string \<Rightarrow> bool" where
  "ContainsAny s chars = list_ex (\<lambda>c. c \<in> set chars) s"

definition TrimPrefix :: "string \<Rightarrow> string \<Rightarrow> string" where
  "TrimPrefix s p = (if HasPrefix s p then drop (length p) s else s)"

definition TrimSuffix :: "string \<Rightarrow> string \<Rightarrow> string" where
  "TrimSuffix s p = (if HasSuffix s p then take (length s - length p) s else s)"

text \<open>\<open>strings.ReplaceAll(s, "\\", "/")\<close>: both strings are one character long.\<close>

definition ReplaceAll :: "string \<Rightarrow> char \<Rightarrow> char \<Rightarrow> string" where
  "ReplaceAll s old new = map (\<lambda>c. if c = old then new else c) s"

text \<open>
  \<open>unicode.IsSpace\<close> on the characters below U+0100: tab, line feed, vertical tab,
  form feed, carriage return, space, U+0085 and U+00A0.
\<close>

definition isSpace :: "char \<Rightarrow> bool" where
  "isSpace c = (c \<in> {CHR 0x09, CHR 0x0A, CHR 0x0B, CHR 0x0C, CHR 0x0D, CHR 0x20, CHR 0x85, CHR 0xA0})"

definition TrimSpace :: "string \<Rightarrow> string" where
  "TrimSpace s = rev (dropWhile isSpace (rev (dropWhile isSpace s)))"

text \<open>\<open>strings.Split(s, "/")\<close>: one more part than there are separators.\<close>

fun Split :: "string \<Rightarrow> char \<Rightarrow> string list" where
  "Split [] sep = [[]]"
| "Split (c # s) sep =
     (if c = sep then [] # Split s sep
      else (case Split s sep of [] \<Rightarrow> [[c]] | part # parts \<Rightarrow> (c # part) # parts))"

fun Join :: "string list \<Rightarrow> char \<Rightarrow> string" where
  "Join [] sep = []"
| "Join [p] sep = p"
| "Join (p # q # ps) sep = p @ sep # Join (q # ps) sep"

section \<open>The regular expressions of the library\<close>

text \<open>
  \<open>BuildRegex\<close> writes the source text of a regular expression and hands it to
  \<open>regexp.Compile\<close>. The model parses that text as the library does under the flags
  of \<open>regexp.Compile\<close> (Perl syntax, one line: \<open>^\<close> and \<open>$\<close> are the ends of the text,
  \<open>.\<close> does not match a line feed, a negated class does). It covers the syntax that
  the text written by \<open>BuildRegex\<close> for a pattern without backslash can contain:
  literals, escaped punctuation, \<open>.\<close>, \<open>^\<close>, \<open>$\<close>, groups, \<open>*\<close> and \<open>?\<close> (greedy or
  not), and bracket expressions with ranges, negation and the POSIX names. For the
  other operators (\<open>|\<close>, \<open>+\<close>, \<open>{\<close>, \<open>(?\<close>, a backslash before a letter or digit) the
  model answers \<open>ErrNotModelled\<close>. The size limits of the library are not modelled.

  A string is the sequence of its characters, and the expression and the text it is
  matched against are read one character at a time. A Go string that is no valid
  UTF-8 is not such a sequence: the refusal of such an expression by the library
  (\<open>ErrInvalidUTF8\<close>) has no counterpart here, and what is stated below of a compiled
  pattern takes its acceptance by the library as a hypothesis.
\<close>

datatype posix_class =
    PAlnum | PAlpha | PAscii | PBlank | PCntrl | PDigit | PGraph
  | PLower | PPrint | PPunct | PSpace | PUpper | PWord | PXdigit

datatype class_item = CRange char char | CNamed bool posix_class

datatype regex =
    EmptyMatch
  | Lit char
  | AnyCharNotNL
  | CharClass bool "class_item list"
  | BeginText
  | EndText
  | Star regex
  | Quest regex
  | Concat regex regex

datatype regex_error =
    ErrMissingBracket
  | ErrInvalidCharRange
  | ErrMissingParen
  | ErrUnexpectedParen
  | ErrMissingRepeatArgument
  | ErrInvalidRepeatOp
  | ErrTrailingBackslash
  | ErrInvalidEscape
  | ErrNotModelled

definition in_range :: "nat \<Rightarrow> nat \<Rightarrow> char \<Rightarrow> bool" where
  "in_range lo hi c = (lo \<le> of_char c \<and> (of_char c :: nat) \<le> hi)"

fun posix_mem :: "posix_class \<Rightarrow> char \<Rightarrow> bool" where
  "posix_mem PAlnum c = (in_range 0x30 0x39 c \<or> in_range 0x41 0x5A c \<or> in_range 0x61 0x7A c)"
| "posix_mem PAlpha c = (in_range 0x41 0x5A c \<or> in_range 0x61 0x7A c)"
| "posix_mem PAscii c = in_range 0x00 0x7F c"
| "posix_mem PBlank c = (c = CHR 0x09 \<or> c = CHR 0x20)"
| "posix_mem PCntrl c = (in_range 0x00 0x1F c \<or> c = CHR 0x7F)"
| "posix_mem PDigit c = in_range 0x30 0x39 c"
| "posix_mem PGraph c = in_range 0x21 0x7E c"
| "posix_mem PLower c = in_range 0x61 0x7A c"
| "posix_mem PPrint c = in_range 0x20 0x7E c"
| "posix_mem PPunct c = (in_range 0x21 0x2F c \<or> in_range 0x3A 0x40 c
                          \<or> in_range 0x5B 0x60 c \<or> in_range 0x7B 0x7E c)"
| "posix_mem PSpace c = (in_range 0x09 0x0D c \<or> c = CHR 0x20)"
| "posix_mem PUpper c = in_range 0x41 0x5A c"
| "posix_mem PWord c = (in_range 0x30 0x39 c \<or> in_range 0x41 0x5A c \<or> in_range 0x61 0x7A c
                         \<or> c = CHR ''_'')"
| "posix_mem PXdigit c = (in_range 0x30 0x39 c \<or> in_range 0x41 0x46 c \<or> in_range 0x61 0x66 c)"

definition posixGroup :: "string \<Rightarrow> posix_class option" where
  "posixGroup name =
     (if name = ''alnum'' then Some PAlnum else if name = ''alpha'' then Some PAlpha
      else if name = ''ascii'' then Some PAscii else if name = ''blank'' then Some PBlank
      else if name = ''cntrl'' then Some PCntrl else if name = ''digit'' then Some PDigit
      else if name = ''graph'' then Some PGraph else if name = ''lower'' then Some PLower
      else if name = ''print'' then Some PPrint else if name = ''punct'' then Some PPunct
      else if name = ''space'' then Some PSpace else if name = ''upper'' then Some PUpper
      else if name = ''word'' then Some PWord else if name = ''xdigit'' then Some PXdigit
      else None)"

fun item_mem :: "class_item \<Rightarrow> char \<Rightarrow> bool" where
  "item_mem (CRange lo hi) c = in_range (of_char lo) (of_char hi) c"
| "item_mem (CNamed neg g) c = (posix_mem g c \<noteq> neg)"

definition class_mem :: "bool \<Rightarrow> class_item list \<Rightarrow> char \<Rightarrow> bool" where
  "class_mem neg items c = (list_ex (\<lambda>i. item_mem i c) items \<noteq> neg)"

subsection \<open>Parsing\<close>

text \<open>
  \<open>parseEscape\<close> reads what follows a backslash: an escaped ASCII character that is
  neither a letter nor a digit stands for itself.
\<close>

definition isalnum :: "char \<Rightarrow> bool" where
  "isalnum c = (in_range 0x30 0x39 c \<or> in_range 0x41 0x5A c \<or> in_range 0x61 0x7A c)"

fun parseEscape :: "string \<Rightarrow> regex_error + (char \<times> string)" where
  "parseEscape [] = Inl ErrTrailingBackslash"
| "parseEscape (c # t) =
     (if in_range 0 0x7F c \<and> \<not> isalnum c then Inr (c, t)
      else if in_range 0 0x7F c then Inl ErrNotModelled
      else Inl ErrInvalidEscape)"

fun parseClassChar :: "string \<Rightarrow> regex_error + (char \<times> string)" where
  "parseClassChar [] = Inl ErrMissingBracket"
| "parseClassChar (c # t) = (if c = bslash then parseEscape t else Inr (c, t))"

text \<open>
  \<open>find_colon_bracket t\<close> is \<open>strings.Index(t, ":]")\<close>: the text before the first
  \<open>:]\<close> and the text after it.
\<close>

fun find_colon_bracket :: "string \<Rightarrow> (string \<times> string) option" where
  "find_colon_bracket [] = None"
| "find_colon_bracket [c] = None"
| "find_colon_bracket (c # d # t) =
     (if c = CHR '':'' \<and> d = CHR '']'' then Some ([], t)
      else (case find_colon_bracket (d # t) of
              None \<Rightarrow> None
            | Some (n, r) \<Rightarrow> Some (c # n, r)))"

text \<open>
  \<open>parseNamedClass\<close>: at \<open>[:\<close> inside a bracket expression, with a \<open>:]\<close> further on,
  the text between is a class name, possibly negated by \<open>^\<close>; an unknown name is an
  error. \<open>None\<close> when the text is not of that shape.
\<close>

definition parseNamedClass :: "string \<Rightarrow> (regex_error + (class_item \<times> string)) option" where
  "parseNamedClass t =
     (case t of
        c # d # u \<Rightarrow>
          (if c = CHR ''['' \<and> d = CHR '':'' then
             (case find_colon_bracket u of
                None \<Rightarrow> None
              | Some (name, r) \<Rightarrow>
                  (case (if name \<noteq> [] \<and> hd name = CHR ''^'' then posixGroup (tl name)
                         else posixGroup name) of
                     None \<Rightarrow> Some (Inl ErrInvalidCharRange)
                   | Some g \<Rightarrow> Some (Inr (CNamed (name \<noteq> [] \<and> hd name = CHR ''^'') g, r))))
           else None)
      | _ \<Rightarrow> None)"

lemma parseEscape_shorter: "parseEscape t = Inr (c, r) \<Longrightarrow> length r < length t"
  by (cases t) (auto split: if_splits)

lemma parseClassChar_shorter: "parseClassChar t = Inr (c, r) \<Longrightarrow> length r < length t"
  by (cases t) (auto split: if_splits dest: parseEscape_shorter)

lemma find_colon_bracket_shorter: "find_colon_bracket t = Some (n, r) \<Longrightarrow> length r < length t"
  by (induction t arbitrary: n r rule: find_colon_bracket.induct)
     (auto split: if_splits option.splits)

lemma parseNamedClass_shorter: "parseNamedClass t = Some (Inr (i, r)) \<Longrightarrow> length r < length t"
  by (auto simp: parseNamedClass_def split: list.splits if_splits option.splits
           dest: find_colon_bracket_shorter)

lemma parseClassChar_twice_shorter:
  "parseClassChar t = Inr (lo, t1) \<Longrightarrow> parseClassChar (tl t1) = Inr (hi, t2) \<Longrightarrow> length t2 < length t"
proof -
  assume a: "parseClassChar t = Inr (lo, t1)" and b: "parseClassChar (tl t1) = Inr (hi, t2)"
  have "length t1 < length t" using a by (rule parseClassChar_shorter)
  moreover have "length t2 < length (tl t1)" using b by (rule parseClassChar_shorter)
  ultimately show ?thesis by simp
qed

text \<open>
  The loop of \<open>parseClass\<close> after the opening bracket and the optional \<open>^\<close>. A \<open>]\<close> that
  comes first is a literal; a \<open>-\<close> followed by anything but \<open>]\<close> makes a range, which
  may not run backwards.
\<close>

function classItems :: "bool \<Rightarrow> string \<Rightarrow> class_item list \<Rightarrow> regex_error + (class_item list \<times> string)" where
  "classItems first t acc =
     (if t \<noteq> [] \<and> hd t = CHR '']'' \<and> \<not> first then Inr (rev acc, tl t)
      else
        (case parseNamedClass t of
           Some (Inl e) \<Rightarrow> Inl e
         | Some (Inr (i, r)) \<Rightarrow> classItems False r (i # acc)
         | None \<Rightarrow>
             (case parseClassChar t of
                Inl e \<Rightarrow> Inl e
              | Inr (lo, t1) \<Rightarrow>
                  (if length t1 \<ge> 2 \<and> hd t1 = CHR ''-'' \<and> hd (tl t1) \<noteq> CHR '']'' then
                     (case parseClassChar (tl t1) of
                        Inl e \<Rightarrow> Inl e
                      | Inr (hi, t2) \<Rightarrow>
                          (if (of_char hi :: nat) < of_char lo then Inl ErrInvalidCharRange
                           else classItems False t2 (CRange lo hi # acc)))
                   else classItems False t1 (CRange lo lo # acc)))))"
  by pat_completeness auto
termination
  by (relation "measure (\<lambda>(first, t, acc). length t)")
     (auto dest: parseNamedClass_shorter parseClassChar_shorter parseClassChar_twice_shorter)

declare classItems.simps [simp del]

definition parseClass :: "string \<Rightarrow> regex_error + (regex \<times> string)" where
  "parseClass t =
     (let neg = (t \<noteq> [] \<and> hd t = CHR ''^'');
          t' = (if neg then tl t else t)
      in case classItems True t' [] of
           Inl e \<Rightarrow> Inl e
         | Inr (items, r) \<Rightarrow> Inr (CharClass neg items, r))"

text \<open>
  The main loop of the parser keeps a stack: the items of the group being read, most
  recent first, on top of those of the enclosing groups. \<open>lastRepeat\<close> tells that the
  previous token was a repetition operator: in Perl syntax they do not stack. A
  capturing group matches what its body matches.
\<close>

fun concat_of :: "regex list \<Rightarrow> regex" where
  "concat_of [] = EmptyMatch"
| "concat_of (r # rs) = Concat r (concat_of rs)"

fun push :: "regex \<Rightarrow> regex list list \<Rightarrow> regex list list" where
  "push r [] = [[r]]"
| "push r (items # outer) = (r # items) # outer"

function parse_loop :: "string \<Rightarrow> regex list list \<Rightarrow> bool \<Rightarrow> regex_error + regex" where
  "parse_loop [] stk lastRepeat =
     (case stk of
        [items] \<Rightarrow> Inr (concat_of (rev items))
      | _ \<Rightarrow> Inl ErrMissingParen)"
| "parse_loop (c # t) stk lastRepeat =
     (if c = CHR ''('' then
        (if t \<noteq> [] \<and> hd t = CHR ''?'' then Inl ErrNotModelled
         else parse_loop t ([] # stk) False)
      else if c = CHR ''|'' then Inl ErrNotModelled
      else if c = CHR '')'' then
        (case stk of
           items # outer # rest \<Rightarrow> parse_loop t ((concat_of (rev items) # outer) # rest) False
         | _ \<Rightarrow> Inl ErrUnexpectedParen)
      else if c = CHR ''^'' then parse_loop t (push BeginText stk) False
      else if c = CHR ''$'' then parse_loop t (push EndText stk) False
      else if c = CHR ''.'' then parse_loop t (push AnyCharNotNL stk) False
      else if c = CHR ''['' then
        (case parseClass t of
           Inl e \<Rightarrow> Inl e
         | Inr (cls, t') \<Rightarrow> parse_loop t' (push cls stk) False)
      else if c = CHR ''*'' \<or> c = CHR ''?'' then
        (let after = (if t \<noteq> [] \<and> hd t = CHR ''?'' then tl t else t) in
         if lastRepeat then Inl ErrInvalidRepeatOp
         else
           (case stk of
              (r # items) # outer \<Rightarrow>
                parse_loop after (((if c = CHR ''*'' then Star r else Quest r) # items) # outer) True
            | _ \<Rightarrow> Inl ErrMissingRepeatArgument))
      else if c = CHR ''+'' \<or> c = CHR ''{'' then Inl ErrNotModelled
      else if c = bslash then
        (case parseEscape t of
           Inl e \<Rightarrow> Inl e
         | Inr (ch, t') \<Rightarrow> parse_loop t' (push (Lit ch) stk) False)
      else parse_loop t (push (Lit c) stk) False)"
  by pat_completeness auto

lemma classItems_shorter: "classItems first t acc = Inr (items, r) \<Longrightarrow> length r < Suc (length t)"
proof (induction first t acc arbitrary: items r rule: classItems.induct)
  case (1 first t acc)
  note eq = "1.prems" [unfolded classItems.simps [of first t acc]]
  show ?case
  proof (cases "t \<noteq> [] \<and> hd t = CHR '']'' \<and> \<not> first")
    case True
    with eq have "r = tl t" by simp
    then show ?thesis by simp
  next
    case False
    note nf = False
    show ?thesis
    proof (cases "parseNamedClass t")
      case (Some x)
      show ?thesis
      proof (cases x)
        case (Inl e)
        with eq nf Some show ?thesis by simp
      next
        case (Inr ir)
        obtain i r0 where ir: "ir = (i, r0)" by (cases ir)
        have "classItems False r0 (i # acc) = Inr (items, r)"
          using eq nf Some Inr ir by simp
        then have "length r < Suc (length r0)"
          using "1.IH"(3) [OF nf Some Inr ir [symmetric]] by simp
        moreover have "length r0 < length t"
          using Some Inr ir by (auto dest: parseNamedClass_shorter)
        ultimately show ?thesis by simp
      qed
    next
      case None
      show ?thesis
      proof (cases "parseClassChar t")
        case (Inl e)
        with eq nf None show ?thesis by simp
      next
        case (Inr lt)
        obtain lo t1 where lt: "lt = (lo, t1)" by (cases lt)
        have l1: "length t1 < length t"
          using Inr lt by (auto dest: parseClassChar_shorter)
        show ?thesis
        proof (cases "length t1 \<ge> 2 \<and> hd t1 = CHR ''-'' \<and> hd (tl t1) \<noteq> CHR '']''")
          case True
          note rng = True
          show ?thesis
          proof (cases "parseClassChar (tl t1)")
            case (Inl e)
            with eq nf None Inr lt rng show ?thesis by simp
          next
            case (Inr ht)
            note Inr2 = Inr
            obtain hi t2 where ht: "ht = (hi, t2)" by (cases ht)
            have l2: "length t2 < length t"
              using \<open>parseClassChar t = Inr lt\<close> lt Inr2 ht
              by (auto dest: parseClassChar_twice_shorter)
            show ?thesis
            proof (cases "(of_char hi :: nat) < of_char lo")
              case True
              with eq nf None \<open>parseClassChar t = Inr lt\<close> lt rng Inr2 ht show ?thesis by simp
            next
              case False
              have "classItems False t2 (CRange lo hi # acc) = Inr (items, r)"
                using eq nf None \<open>parseClassChar t = Inr lt\<close> lt rng Inr2 ht False by simp
              then have "length r < Suc (length t2)"
                using "1.IH"(1) [OF nf None \<open>parseClassChar t = Inr lt\<close> lt [symmetric] rng Inr2
                    ht [symmetric] False]
                by simp
              with l2 show ?thesis by simp
            qed
          qed
        next
          case False
          have "classItems False t1 (CRange lo lo # acc) = Inr (items, r)"
            using eq nf None Inr lt False by simp
          then have "length r < Suc (length t1)"
            using "1.IH"(2) [OF nf None Inr lt [symmetric] False] by simp
          with l1 show ?thesis by simp
        qed
      qed
    qed
  qed
qed

lemma parseClass_shorter: "parseClass t = Inr (cls, r) \<Longrightarrow> length r < Suc (length t)"
proof -
  assume a: "parseClass t = Inr (cls, r)"
  define t' where "t' = (if t \<noteq> [] \<and> hd t = CHR ''^'' then tl t else t)"
  from a obtain items where "classItems True t' [] = Inr (items, r)"
    by (auto simp: parseClass_def Let_def t'_def split: sum.splits)
  then have "length r < Suc (length t')" by (rule classItems_shorter)
  moreover have "length t' \<le> length t" by (simp add: t'_def)
  ultimately show ?thesis by simp
qed

lemma parseClass_call_shorter:
  "parseClass t = Inr b \<Longrightarrow> (x, y) = b \<Longrightarrow> length y < Suc (length t)"
  using parseClass_shorter [of t x y] by simp

lemma parseEscape_call_shorter:
  "parseEscape t = Inr b \<Longrightarrow> (x, y) = b \<Longrightarrow> length y < Suc (length t)"
  using parseEscape_shorter [of t x y] by simp

termination parse_loop
  apply (relation "measure (\<lambda>(t, stk, lastRepeat). length t)")
         apply simp_all
    apply (erule (1) parseClass_call_shorter)
   apply arith
  apply (erule (1) parseEscape_call_shorter)
  done

text \<open>\<open>regexp.Compile\<close>.\<close>

definition regexp_Compile :: "string \<Rightarrow> regex_error + regex" where
  "regexp_Compile s = parse_loop s [[]] False"

subsection \<open>Matching\<close>

text \<open>
  A position in the text: whether it is the beginning, and what is left to read. The
  matcher passes the positions where an expression can stop to a continuation. A
  repetition goes round again only after reading something, which loses no match.
\<close>

type_synonym pos = "bool \<times> string"

fun star_iter :: "nat \<Rightarrow> (pos \<Rightarrow> (pos \<Rightarrow> bool) \<Rightarrow> bool) \<Rightarrow> pos \<Rightarrow> (pos \<Rightarrow> bool) \<Rightarrow> bool" where
  "star_iter 0 f st k = k st"
| "star_iter (Suc n) f st k =
     (k st \<or> f st (\<lambda>st'. length (snd st') < length (snd st) \<and> star_iter n f st' k))"

definition read_char :: "(char \<Rightarrow> bool) \<Rightarrow> pos \<Rightarrow> (pos \<Rightarrow> bool) \<Rightarrow> bool" where
  "read_char P st k = (case snd st of [] \<Rightarrow> False | x # xs \<Rightarrow> P x \<and> k (False, xs))"

primrec accept :: "regex \<Rightarrow> pos \<Rightarrow> (pos \<Rightarrow> bool) \<Rightarrow> bool" where
  "accept EmptyMatch = (\<lambda>st k. k st)"
| "accept (Lit c) = read_char (\<lambda>x. x = c)"
| "accept AnyCharNotNL = read_char (\<lambda>x. x \<noteq> newline)"
| "accept (CharClass neg items) = read_char (class_mem neg items)"
| "accept BeginText = (\<lambda>st k. fst st \<and> k st)"
| "accept EndText = (\<lambda>st k. snd st = [] \<and> k st)"
| "accept (Star r) = (\<lambda>st k. star_iter (length (snd st)) (accept r) st k)"
| "accept (Quest r) = (\<lambda>st k. k st \<or> accept r st k)"
| "accept (Concat r1 r2) = (\<lambda>st k. accept r1 st (\<lambda>st'. accept r2 st' k))"

text \<open>\<open>MatchString\<close>: the expression matches from some position of the text on.\<close>

definition MatchString :: "regex \<Rightarrow> string \<Rightarrow> bool" where
  "MatchString re s =
     list_ex (\<lambda>i. accept re (i = 0, drop i s) (\<lambda>st. True)) [0 ..< Suc (length s)]"

section \<open>The pattern compiler: internal/util.go\<close>

definition isRegexMetaChar :: "char \<Rightarrow> bool" where
  "isRegexMetaChar c = (c \<in> set ''.+*?^$()[]{}|'' \<or> c = bslash)"

text \<open>
  The three writers get the text after the character at index \<open>i\<close> and give what
  they write and the text after the index they return.
\<close>

definition writeWildcard :: "string \<Rightarrow> string \<times> string" where
  "writeWildcard rest =
     (if rest \<noteq> [] \<and> hd rest = CHR ''*'' then
        (if tl rest \<noteq> [] \<and> hd (tl rest) = slash then (''(.*?/)?'', tl (tl rest))
         else (''.*'', tl rest))
      else (''[^/]*'', rest))"

definition writeCharClass :: "string \<Rightarrow> string \<times> string" where
  "writeCharClass rest =
     (if CHR '']'' \<in> set rest then
        (CHR ''['' # takeWhile (\<lambda>c. c \<noteq> CHR '']'') rest @ '']'',
         tl (dropWhile (\<lambda>c. c \<noteq> CHR '']'') rest))
      else ([bslash, CHR ''[''], rest))"

definition writeEscaped :: "string \<Rightarrow> string \<times> string" where
  "writeEscaped rest =
     (if rest \<noteq> [] then
        ((if isRegexMetaChar (hd rest) then [bslash] else []) @ [hd rest], tl rest)
      else ([bslash, bslash], []))"

lemma writeWildcard_shorter: "(out, r) = writeWildcard rest \<Longrightarrow> length r \<le> length rest"
  by (auto simp: writeWildcard_def split: if_splits)

lemma writeCharClass_shorter: "(out, r) = writeCharClass rest \<Longrightarrow> length r \<le> length rest"
proof -
  have "length (dropWhile (\<lambda>c. c \<noteq> CHR '']'') rest) \<le> length rest"
    by (rule length_dropWhile_le)
  moreover assume "(out, r) = writeCharClass rest"
  ultimately show ?thesis by (auto simp: writeCharClass_def split: if_splits)
qed

lemma writeEscaped_shorter: "(out, r) = writeEscaped rest \<Longrightarrow> length r \<le> length rest"
  by (auto simp: writeEscaped_def split: if_splits)

function buildLoop :: "string \<Rightarrow> string" where
  "buildLoop [] = []"
| "buildLoop (c # rest) =
     (if c = CHR ''*'' then (case writeWildcard rest of (out, r) \<Rightarrow> out @ buildLoop r)
      else if c = CHR ''?'' then ''[^/]'' @ buildLoop rest
      else if c = CHR ''['' then (case writeCharClass rest of (out, r) \<Rightarrow> out @ buildLoop r)
      else if c \<in> set ''.+^$(){}|'' then bslash # c # buildLoop rest
      else if c = bslash then (case writeEscaped rest of (out, r) \<Rightarrow> out @ buildLoop r)
      else c # buildLoop rest)"
  by pat_completeness auto
termination
  by (relation "measure length")
     (auto dest: writeWildcard_shorter writeCharClass_shorter writeEscaped_shorter
           simp: less_Suc_eq_le)

datatype build_error = PatternEmpty | CompileFailed regex_error

definition BuildRegex :: "string \<Rightarrow> build_error + regex" where
  "BuildRegex pat =
     (if pat = [] then Inl PatternEmpty
      else
        (case regexp_Compile (''^'' @ buildLoop pat @ ''$'') of
           Inl e \<Rightarrow> Inl (CompileFailed e)
         | Inr re \<Rightarrow> Inr re))"

section \<open>Paths: the functions of path/filepath that the program calls\<close>

text \<open>
  \<open>filepath.Clean\<close>, following the loop of the library: \<open>out\<close> is the buffer written
  so far and \<open>dotdot\<close> the index in it below which \<open>..\<close> may not remove anything.
\<close>

function backtrack :: "string \<Rightarrow> nat \<Rightarrow> nat \<Rightarrow> nat" where
  "backtrack out dotdot w =
     (if w > dotdot \<and> out ! w \<noteq> slash then backtrack out dotdot (w - 1) else w)"
  by pat_completeness auto
termination
  by (relation "measure (\<lambda>(out, dotdot, w). w)") auto

declare backtrack.simps [simp del]

function clean_loop :: "bool \<Rightarrow> string \<Rightarrow> string \<Rightarrow> nat \<Rightarrow> string" where
  "clean_loop rooted [] out dotdot = out"
| "clean_loop rooted (c # rest) out dotdot =
     (if c = slash then clean_loop rooted rest out dotdot
      else if c = CHR ''.'' \<and> (rest = [] \<or> hd rest = slash) then
        clean_loop rooted rest out dotdot
      else if c = CHR ''.'' \<and> hd rest = CHR ''.'' \<and> (tl rest = [] \<or> hd (tl rest) = slash) then
        (if length out > dotdot then
           clean_loop rooted (tl rest) (take (backtrack out dotdot (length out - 1)) out) dotdot
         else if \<not> rooted then
           clean_loop rooted (tl rest) ((if out \<noteq> [] then out @ ''/'' else out) @ ''..'')
             (length ((if out \<noteq> [] then out @ ''/'' else out) @ ''..''))
         else clean_loop rooted (tl rest) out dotdot)
      else
        clean_loop rooted (dropWhile (\<lambda>x. x \<noteq> slash) rest)
          ((if (rooted \<and> length out \<noteq> 1) \<or> (\<not> rooted \<and> length out \<noteq> 0) then out @ ''/'' else out)
             @ c # takeWhile (\<lambda>x. x \<noteq> slash) rest)
          dotdot)"
  by pat_completeness auto
termination
  by (relation "measure (\<lambda>(rooted, path, out, dotdot). length path)")
     (auto simp: less_Suc_eq_le length_dropWhile_le)

definition Clean :: "string \<Rightarrow> string" where
  "Clean path =
     (if path = [] then ''.''
      else
        (let rooted = (hd path = slash);
             out = (if rooted then clean_loop True (tl path) ''/'' 1
                    else clean_loop False path [] 0)
         in if out = [] then ''.'' else out))"

definition IsAbs :: "string \<Rightarrow> bool" where
  "IsAbs path = HasPrefix path ''/''"

text \<open>\<open>filepath.Join\<close>: the elements from the first non-empty one on, joined and cleaned.\<close>

definition filepath_Join :: "string list \<Rightarrow> string" where
  "filepath_Join elems =
     (case dropWhile (\<lambda>e. e = []) elems of
        [] \<Rightarrow> []
      | es \<Rightarrow> Clean (Join es slash))"

text \<open>
  \<open>filepath.Rel\<close>. The loop walks both paths element by element while they agree;
  it yields what is left of the base, the element of the base it stopped in, and what
  is left of the target.
\<close>

function rel_loop :: "string \<Rightarrow> string \<Rightarrow> string \<times> string \<times> string" where
  "rel_loop bs ts =
     (if bs \<noteq> [] \<and> ts \<noteq> [] then
        (if takeWhile (\<lambda>x. x \<noteq> slash) ts \<noteq> takeWhile (\<lambda>x. x \<noteq> slash) bs then
           (bs, takeWhile (\<lambda>x. x \<noteq> slash) bs, ts)
         else rel_loop (drop 1 (dropWhile (\<lambda>x. x \<noteq> slash) bs))
                       (drop 1 (dropWhile (\<lambda>x. x \<noteq> slash) ts)))
      else (bs, [], ts))"
  by pat_completeness auto

lemma drop1_dropWhile_shorter: "bs \<noteq> [] \<Longrightarrow> length (dropWhile P bs) - Suc 0 < length bs"
proof -
  assume "bs \<noteq> []"
  then have "0 < length bs" by simp
  moreover have "length (dropWhile P bs) \<le> length bs" by (rule length_dropWhile_le)
  ultimately show ?thesis by arith
qed

termination rel_loop
  by (relation "measure (\<lambda>(bs, ts). length bs)") (simp_all add: drop1_dropWhile_shorter)

declare rel_loop.simps [simp del]

datatype rel_error = RelCannot

definition Rel :: "string \<Rightarrow> string \<Rightarrow> rel_error + string" where
  "Rel basepath targpath =
     (let base0 = Clean basepath; targ = Clean targpath in
      if targ = base0 then Inr ''.''
      else
        (let base = (if base0 = ''.'' then [] else base0);
             baseSlashed = (base \<noteq> [] \<and> hd base = slash);
             targSlashed = (targ \<noteq> [] \<and> hd targ = slash)
         in if baseSlashed \<noteq> targSlashed then Inl RelCannot
            else
              (case rel_loop base targ of
                 (bs, cur, ts) \<Rightarrow>
                   if cur = ''..'' then Inl RelCannot
                   else if bs \<noteq> [] then
                     Inr (''..'' @ concat (replicate (count_list bs slash) ''/..'')
                          @ (if ts \<noteq> [] then slash # ts else []))
                   else Inr ts)))"

section \<open>Pattern sets: dotignore.go\<close>

record ignorePattern =
  pattern :: string
  regexPattern :: regex
  isDirectory :: bool
  negate :: bool
  hasWildcard :: bool
  isRootRelative :: bool

record PatternMatcher =
  ignorePatterns :: "ignorePattern list"

text \<open>
  The errors of the package. The number of a line counts from one. An error that wraps
  another with a longer message is modelled by the error it wraps, except where the
  wrapper tells which step failed.
\<close>

datatype error =
    SingleBang nat
  | EmptyBody nat
  | RegexFailed string nat build_error
  | MatchFailed string string
  | OutsideRoot string string
  | RelFailed rel_error

text \<open>
  The body of the loop of \<open>buildIgnorePatterns\<close>, in two parts: up to the end of the
  handling of \<open>!\<close>, and from the conversion of the backslashes on. \<open>Inr None\<close> is
  \<open>continue\<close>.
\<close>

definition compileBody :: "nat \<Rightarrow> string \<Rightarrow> bool \<Rightarrow> error + ignorePattern option" where
  "compileBody i pattern0 isNegation =
     (let pattern1 = ReplaceAll pattern0 bslash slash;
          isRootRelative = HasPrefix pattern1 ''/'';
          pattern2 = (if isRootRelative then TrimPrefix pattern1 ''/'' else pattern1);
          isDirectory = HasSuffix pattern2 ''/'';
          pattern3 = (if isDirectory then TrimSuffix pattern2 ''/'' else pattern2)
      in if pattern3 = [] then Inl (EmptyBody (i + 1))
         else
           (case BuildRegex pattern3 of
              Inl e \<Rightarrow> Inl (RegexFailed pattern3 (i + 1) e)
            | Inr re \<Rightarrow>
                Inr (Some \<lparr> pattern = pattern3, regexPattern = re, isDirectory = isDirectory,
                             negate = isNegation, hasWildcard = ContainsAny pattern3 ''*?'',
                             isRootRelative = isRootRelative \<rparr>)))"

definition compileLine :: "nat \<Rightarrow> string \<Rightarrow> error + ignorePattern option" where
  "compileLine i line =
     (let pattern0 = TrimSpace line in
      if pattern0 = [] \<or> HasPrefix pattern0 ''#'' then Inr None
      else if HasPrefix pattern0 [bslash, CHR ''!''] then compileBody i (drop 1 pattern0) False
      else if HasPrefix pattern0 ''!'' then
        (if length pattern0 = 1 then Inl (SingleBang (i + 1))
         else compileBody i (drop 1 pattern0) True)
      else compileBody i pattern0 False)"

fun buildFrom :: "nat \<Rightarrow> string list \<Rightarrow> error + ignorePattern list" where
  "buildFrom i [] = Inr []"
| "buildFrom i (line # lines) =
     (case compileLine i line of
        Inl e \<Rightarrow> Inl e
      | Inr None \<Rightarrow> buildFrom (i + 1) lines
      | Inr (Some p) \<Rightarrow>
          (case buildFrom (i + 1) lines of
             Inl e \<Rightarrow> Inl e
           | Inr ps \<Rightarrow> Inr (p # ps)))"

definition buildIgnorePatterns :: "string list \<Rightarrow> error + ignorePattern list" where
  "buildIgnorePatterns patterns = buildFrom 0 patterns"

definition NewPatternMatcher :: "string list \<Rightarrow> error + PatternMatcher" where
  "NewPatternMatcher patterns =
     (case buildIgnorePatterns patterns of
        Inl e \<Rightarrow> Inl e
      | Inr ps \<Rightarrow> Inr \<lparr> ignorePatterns = ps \<rparr>)"

subsection \<open>Matching one pattern\<close>

definition matchRootRelativePattern :: "string \<Rightarrow> ignorePattern \<Rightarrow> bool" where
  "matchRootRelativePattern file p =
     (if MatchString (regexPattern p) file then True
      else if isDirectory p then
        (file = pattern p \<or> file = pattern p @ ''/'' \<or> HasPrefix file (pattern p @ ''/''))
      else (file = pattern p \<or> HasPrefix file (pattern p @ ''/'')))"

definition matchDirectoryPattern :: "string \<Rightarrow> ignorePattern \<Rightarrow> bool" where
  "matchDirectoryPattern file p =
     (let dirName = pattern p in
      if file = dirName then True
      else if length file > length dirName \<and> file ! length dirName = slash
              \<and> take (length dirName) file = dirName then True
      else (length file = length dirName + 1 \<and> file ! (length file - 1) = slash
            \<and> take (length dirName) file = dirName))"

definition matchWildcardSubpaths :: "string \<Rightarrow> ignorePattern \<Rightarrow> bool" where
  "matchWildcardSubpaths file p =
     (let parts = Split file slash in
      if list_ex (\<lambda>i. MatchString (regexPattern p) (Join (drop i parts) slash))
           [0 ..< length parts] then True
      else list_ex (\<lambda>i. MatchString (regexPattern p)
                           (Join (take i parts) slash @ ''/'' @ Join (drop i parts) slash))
             [1 ..< length parts])"

definition matchPathSeparatorPattern :: "string \<Rightarrow> ignorePattern \<Rightarrow> bool" where
  "matchPathSeparatorPattern file p =
     (let patternLen = length (pattern p) in
      if file = pattern p then True
      else if length file > patternLen \<and> file ! patternLen = slash
              \<and> take patternLen file = pattern p then True
      else if length file > patternLen \<and> drop (length file - patternLen) file = pattern p
              \<and> file ! (length file - patternLen - 1) = slash then True
      else Contains file (''/'' @ pattern p @ ''/''))"

definition matchSimplePattern :: "string \<Rightarrow> ignorePattern \<Rightarrow> bool" where
  "matchSimplePattern file p = list_ex (MatchString (regexPattern p)) (Split file slash)"

text \<open>\<open>matchPattern\<close> returns a boolean and an error, which is always nil.\<close>

definition matchPattern :: "string \<Rightarrow> ignorePattern \<Rightarrow> error + bool" where
  "matchPattern file p =
     (if isRootRelative p then Inr (matchRootRelativePattern file p)
      else if MatchString (regexPattern p) file then Inr True
      else if isDirectory p \<and> matchDirectoryPattern file p then Inr True
      else if hasWildcard p \<and> matchWildcardSubpaths file p then Inr True
      else if Contains (pattern p) ''/'' then Inr (matchPathSeparatorPattern file p)
      else Inr (matchSimplePattern file p))"

subsection \<open>Evaluating a pattern set\<close>

fun matchesLoop :: "ignorePattern list \<Rightarrow> string \<Rightarrow> bool \<Rightarrow> error + bool" where
  "matchesLoop [] file matched = Inr matched"
| "matchesLoop (p # ps) file matched =
     (case matchPattern file p of
        Inl e \<Rightarrow> Inl (MatchFailed (pattern p) file)
      | Inr isMatch \<Rightarrow> matchesLoop ps file (if isMatch then \<not> negate p else matched))"

definition matchesInternal :: "PatternMatcher \<Rightarrow> string \<Rightarrow> error + bool" where
  "matchesInternal pm file = matchesLoop (ignorePatterns pm) file False"

definition Matches :: "PatternMatcher \<Rightarrow> string \<Rightarrow> error + bool" where
  "Matches pm file0 =
     (if file0 = [] then Inr False
      else
        (let file1 = Clean file0 in
         if file1 = ''.'' \<or> file1 = ''./'' then Inr False
         else matchesInternal pm (ReplaceAll file1 bslash slash)))"

fun trackingLoop :: "ignorePattern list \<Rightarrow> string \<Rightarrow> bool \<Rightarrow> bool \<Rightarrow> error + (bool \<times> bool)" where
  "trackingLoop [] file matched anyPatternMatched = Inr (matched, anyPatternMatched)"
| "trackingLoop (p # ps) file matched anyPatternMatched =
     (case matchPattern file p of
        Inl e \<Rightarrow> Inl (MatchFailed (pattern p) file)
      | Inr isMatch \<Rightarrow>
          (if isMatch then trackingLoop ps file (\<not> negate p) True
           else trackingLoop ps file matched anyPatternMatched))"

definition MatchesWithTracking :: "PatternMatcher \<Rightarrow> string \<Rightarrow> error + (bool \<times> bool)" where
  "MatchesWithTracking pm file0 =
     (if file0 = [] then Inr (False, False)
      else
        (let file1 = Clean file0 in
         if file1 = ''.'' \<or> file1 = ''./'' then Inr (False, False)
         else trackingLoop (ignorePatterns pm) (ReplaceAll file1 bslash slash) False False))"

section \<open>The repository index\<close>

record RepositoryMatcher =
  rootDir :: string
  matchers :: "string \<rightharpoonup> PatternMatcher"

text \<open>The directories from the root down to the parent of the path.\<close>

fun dirsBelow :: "string \<Rightarrow> string list \<Rightarrow> string list" where
  "dirsBelow currentDir [] = []"
| "dirsBelow currentDir (part # parts) =
     filepath_Join [currentDir, part] # dirsBelow (filepath_Join [currentDir, part]) parts"

definition dirsToCheck :: "string \<Rightarrow> string \<Rightarrow> string list" where
  "dirsToCheck root relPath = root # dirsBelow root (butlast (Split relPath slash))"

text \<open>
  The loop over the directories, with the running decision \<open>matched\<close>. A directory
  without a rule file, or one to which the path cannot be made relative, is passed
  over.
\<close>

fun levelsLoop :: "RepositoryMatcher \<Rightarrow> string \<Rightarrow> string \<Rightarrow> string list \<Rightarrow> bool \<Rightarrow> error + bool" where
  "levelsLoop rm absPath relPath [] matched = Inr matched"
| "levelsLoop rm absPath relPath (dir # dirs) matched =
     (case matchers rm dir of
        None \<Rightarrow> levelsLoop rm absPath relPath dirs matched
      | Some matcher \<Rightarrow>
          (case (if dir = rootDir rm then Inr relPath else Rel dir absPath) of
             Inl e \<Rightarrow> levelsLoop rm absPath relPath dirs matched
           | Inr matchPath \<Rightarrow>
               (case MatchesWithTracking matcher matchPath of
                  Inl e \<Rightarrow> Inl e
                | Inr (isMatch, anyPatternMatched) \<Rightarrow>
                    levelsLoop rm absPath relPath dirs
                      (if anyPatternMatched then isMatch else matched))))"

definition absolutePath :: "RepositoryMatcher \<Rightarrow> string \<Rightarrow> string" where
  "absolutePath rm path =
     (if IsAbs path then Clean path else Clean (filepath_Join [rootDir rm, path]))"

definition RepositoryMatcher_Matches :: "RepositoryMatcher \<Rightarrow> string \<Rightarrow> error + bool" where
  "RepositoryMatcher_Matches rm path =
     (if path = [] then Inr False
      else
        (let absPath = absolutePath rm path in
         if \<not> HasPrefix absPath (rootDir rm) then Inl (OutsideRoot path (rootDir rm))
         else
           (case Rel (rootDir rm) absPath of
              Inl e \<Rightarrow> Inl (RelFailed e)
            | Inr relPath \<Rightarrow>
                levelsLoop rm absPath relPath (dirsToCheck (rootDir rm) relPath) False)))"

section \<open>The vocabulary of the properties\<close>

text \<open>
  The patterns of a set that match a path, in declared order; the decision "the last
  one that matches wins"; the path as \<open>Matches\<close> hands it to the patterns; and the paths
  that \<open>Matches\<close> answers without looking at any pattern.
\<close>

definition firing :: "ignorePattern list \<Rightarrow> string \<Rightarrow> ignorePattern list" where
  "firing ps file = filter (\<lambda>p. matchPattern file p = Inr True) ps"

definition lastWins :: "ignorePattern list \<Rightarrow> string \<Rightarrow> bool" where
  "lastWins ps file = (if firing ps file = [] then False else \<not> negate (last (firing ps file)))"

definition normalize :: "string \<Rightarrow> string" where
  "normalize file = ReplaceAll (Clean file) bslash slash"

definition trivialPath :: "string \<Rightarrow> bool" where
  "trivialPath file = (file = [] \<or> Clean file = ''.'' \<or> Clean file = ''./'')"

text \<open>
  The path a level of the hierarchy is asked about, and the patterns of a level that
  match it: none when the directory has no rule file, when the path cannot be made
  relative to it, or when the relative path is one that \<open>MatchesWithTracking\<close> answers
  without looking at the patterns. \<open>exampleRepo\<close> is an index with a rule file at the
  root and one in the directory \<open>special\<close>.
\<close>

definition levelPath :: "RepositoryMatcher \<Rightarrow> string \<Rightarrow> string \<Rightarrow> string \<Rightarrow> rel_error + string" where
  "levelPath rm absPath relPath dir = (if dir = rootDir rm then Inr relPath else Rel dir absPath)"

definition levelFiring :: "RepositoryMatcher \<Rightarrow> string \<Rightarrow> string \<Rightarrow> string \<Rightarrow> ignorePattern list" where
  "levelFiring rm absPath relPath dir =
     (case matchers rm dir of
        None \<Rightarrow> []
      | Some pm \<Rightarrow>
          (case levelPath rm absPath relPath dir of
             Inl e \<Rightarrow> []
           | Inr matchPath \<Rightarrow>
               if trivialPath matchPath then []
               else firing (ignorePatterns pm) (normalize matchPath)))"

definition exampleRepo :: "PatternMatcher \<Rightarrow> PatternMatcher \<Rightarrow> RepositoryMatcher" where
  "exampleRepo upper nested =
     \<lparr> rootDir = ''/repo'', matchers = [''/repo'' \<mapsto> upper, ''/repo/special'' \<mapsto> nested] \<rparr>"

text \<open>
  What \<open>buildIgnorePatterns\<close> makes of the text of a line before it calls
  \<open>BuildRegex\<close>: the body left when the backslashes are converted and one leading and
  one trailing \<open>/\<close> are taken off. \<open>compiled p\<close> says that \<open>p\<close> is the pattern of some
  line.
\<close>

definition rootBody :: "string \<Rightarrow> bool" where
  "rootBody body = HasPrefix (ReplaceAll body bslash slash) ''/''"

definition unrooted :: "string \<Rightarrow> string" where
  "unrooted body =
     (if rootBody body then TrimPrefix (ReplaceAll body bslash slash) ''/''
      else ReplaceAll body bslash slash)"

definition dirBody :: "string \<Rightarrow> bool" where
  "dirBody body = HasSuffix (unrooted body) ''/''"

definition stripBody :: "string \<Rightarrow> string" where
  "stripBody body = (if dirBody body then TrimSuffix (unrooted body) ''/'' else unrooted body)"

definition compiled :: "ignorePattern \<Rightarrow> bool" where
  "compiled p = (\<exists>i line. compileLine i line = Inr (Some p))"

text \<open>
  Patterns without bracket expression and without backslash, and the expression that
  \<open>regexp.Compile\<close> reads from what \<open>BuildRegex\<close> writes for them: \<open>**/\<close> becomes an
  optional group, \<open>**\<close> a repetition of \<open>.\<close>, \<open>*\<close> a repetition of \<open>[^/]\<close>, \<open>?\<close> one
  \<open>[^/]\<close>, every other character itself.
\<close>

definition plain :: "string \<Rightarrow> bool" where
  "plain P = (CHR ''['' \<notin> set P \<and> bslash \<notin> set P)"

abbreviation notSlash :: regex where
  "notSlash \<equiv> CharClass True [CRange slash slash]"

abbreviation anyDirs :: regex where
  "anyDirs \<equiv> Quest (Concat (Star AnyCharNotNL) (Concat (Lit slash) EmptyMatch))"

fun translate :: "string \<Rightarrow> regex list" where
  "translate [] = []"
| "translate (c # rest) =
     (if c = CHR ''*'' then
        (if rest \<noteq> [] \<and> hd rest = CHR ''*'' then
           (if tl rest \<noteq> [] \<and> hd (tl rest) = slash then anyDirs # translate (tl (tl rest))
            else Star AnyCharNotNL # translate (tl rest))
         else Star notSlash # translate rest)
      else if c = CHR ''?'' then notSlash # translate rest
      else Lit c # translate rest)"

definition patternRegex :: "string \<Rightarrow> regex" where
  "patternRegex P = concat_of (BeginText # translate P @ [EndText])"

text \<open>
  The texts such an expression matches, read off the pattern: \<open>**/\<close> stands for
  nothing or for a text without line feed followed by \<open>/\<close>; \<open>**\<close> for a text without
  line feed; \<open>*\<close> for a text without \<open>/\<close>; \<open>?\<close> for one character other than \<open>/\<close>;
  every other character for itself.
\<close>

fun glob :: "string \<Rightarrow> string \<Rightarrow> bool" where
  "glob [] s = (s = [])"
| "glob (c # rest) s =
     (if c = CHR ''*'' then
        (if rest \<noteq> [] \<and> hd rest = CHR ''*'' then
           (if tl rest \<noteq> [] \<and> hd (tl rest) = slash then
              (glob (tl (tl rest)) s
               \<or> (\<exists>u v. s = u @ slash # v \<and> newline \<notin> set u \<and> glob (tl (tl rest)) v))
            else (\<exists>u v. s = u @ v \<and> newline \<notin> set u \<and> glob (tl rest) v))
         else (\<exists>u v. s = u @ v \<and> slash \<notin> set u \<and> glob rest v))
      else if c = CHR ''?'' then (\<exists>x v. s = x # v \<and> x \<noteq> slash \<and> glob rest v)
      else (\<exists>v. s = c # v \<and> glob rest v))"


definition doubleStar :: "string \<Rightarrow> bool" where
  "doubleStar P = sublist ''**'' P"



definition atBoundary :: "string \<Rightarrow> string \<Rightarrow> bool" where
  "atBoundary P f =
     (f = P \<or> prefix (P @ ''/'') f \<or> suffix (''/'' @ P) f \<or> sublist (''/'' @ P @ ''/'') f)"


section \<open>Evaluation of a pattern set\<close>

lemma matchPattern_total: "matchPattern f p = Inr True \<or> matchPattern f p = Inr False"
  by (simp add: matchPattern_def)

lemma matchesLoop_firing:
  "matchesLoop ps f m = Inr (if firing ps f = [] then m else \<not> negate (last (firing ps f)))"
proof (induction ps arbitrary: m)
  case Nil
  show ?case by (simp add: firing_def)
next
  case (Cons p ps)
  from matchPattern_total [of f p] show ?case
  proof
    assume "matchPattern f p = Inr True"
    then show ?thesis by (simp add: Cons.IH firing_def)
  next
    assume "matchPattern f p = Inr False"
    then show ?thesis by (simp add: Cons.IH firing_def)
  qed
qed

lemma trackingLoop_firing:
  "trackingLoop ps f m a =
     Inr (if firing ps f = [] then m else \<not> negate (last (firing ps f)), a \<or> firing ps f \<noteq> [])"
proof (induction ps arbitrary: m a)
  case Nil
  show ?case by (simp add: firing_def)
next
  case (Cons p ps)
  from matchPattern_total [of f p] show ?case
  proof
    assume "matchPattern f p = Inr True"
    then show ?thesis by (simp add: Cons.IH firing_def)
  next
    assume "matchPattern f p = Inr False"
    then show ?thesis by (simp add: Cons.IH firing_def)
  qed
qed

lemma Matches_lastWins:
  "Matches pm file =
     Inr (if trivialPath file then False else lastWins (ignorePatterns pm) (normalize file))"
  by (simp add: Matches_def Let_def trivialPath_def matchesInternal_def matchesLoop_firing
        lastWins_def normalize_def)

lemma Tracking_lastWins:
  "MatchesWithTracking pm file =
     Inr (if trivialPath file then (False, False)
          else (lastWins (ignorePatterns pm) (normalize file),
                firing (ignorePatterns pm) (normalize file) \<noteq> []))"
  by (simp add: MatchesWithTracking_def Let_def trivialPath_def trackingLoop_firing
        lastWins_def normalize_def)

lemma scenario_log:
  "(case NewPatternMatcher [''*.log'', ''!important.log''] of
      Inl e \<Rightarrow> False
    | Inr pm \<Rightarrow> Matches pm ''app.log'' = Inr True \<and> Matches pm ''important.log'' = Inr False)"
  by code_simp

text \<open>
  C1, as amended. \<open>Matches\<close> never fails. For the empty path and for a path that cleans
  to \<open>.\<close> it answers "not ignored" whatever the patterns are; for every other path it
  answers "not ignored" when no pattern matches the normalized path and otherwise the
  negation of the \<open>negate\<close> flag of the last pattern, in declared order, that matches.
  With \<open>*.log\<close> and \<open>!important.log\<close>, \<open>app.log\<close> is ignored and \<open>important.log\<close> is not.
\<close>

theorem C1_last_match_wins:
  "Matches pm file =
     Inr (if trivialPath file then False else lastWins (ignorePatterns pm) (normalize file))
   \<and> (case NewPatternMatcher [''*.log'', ''!important.log''] of
          Inl e \<Rightarrow> False
        | Inr pm \<Rightarrow> Matches pm ''app.log'' = Inr True \<and> Matches pm ''important.log'' = Inr False)"
  using Matches_lastWins scenario_log by simp

theorem C1_last_match_wins_witness:
  "(case NewPatternMatcher [''*.log'', ''!important.log''] of
      Inl e \<Rightarrow> False
    | Inr pm \<Rightarrow> \<not> trivialPath ''important.log''
        \<and> Matches pm ''important.log''
            = Inr (lastWins (ignorePatterns pm) (normalize ''important.log''))
        \<and> \<not> lastWins (ignorePatterns pm) (normalize ''important.log''))"
proof -
  have computed:
    "(case NewPatternMatcher [''*.log'', ''!important.log''] of
        Inl e \<Rightarrow> False
      | Inr pm \<Rightarrow> \<not> trivialPath ''important.log''
          \<and> Matches pm ''important.log''
              = Inr (lastWins (ignorePatterns pm) (normalize ''important.log''))
          \<and> \<not> lastWins (ignorePatterns pm) (normalize ''important.log''))"
    by code_simp
  show ?thesis
    using C1_last_match_wins
      [of "projr (NewPatternMatcher [''*.log'', ''!important.log''])" "''important.log''"]
      computed
    apply -
    apply assumption
    done
qed

text \<open>
  C1 as stated, for every path, fails: the pattern \<open>*\<close> matches the path \<open>.\<close>, and
  \<open>Matches\<close> answers "not ignored" for it.
\<close>

theorem C1_every_path_counterexample:
  "\<not> (\<forall>lines pm file. NewPatternMatcher lines = Inr pm \<longrightarrow>
        Matches pm file = Inr (lastWins (ignorePatterns pm) (normalize file)))"
proof
  assume a: "\<forall>lines pm file. NewPatternMatcher lines = Inr pm \<longrightarrow>
        Matches pm file = Inr (lastWins (ignorePatterns pm) (normalize file))"
  have "(case NewPatternMatcher [''*''] of
          Inl e \<Rightarrow> False
        | Inr pm \<Rightarrow> Matches pm ''.'' = Inr False \<and> lastWins (ignorePatterns pm) (normalize ''.''))"
    by code_simp
  then obtain pm where pm: "NewPatternMatcher [''*''] = Inr pm"
      and m: "Matches pm ''.'' = Inr False" and l: "lastWins (ignorePatterns pm) (normalize ''.'')"
    by (auto split: sum.splits)
  from a pm have "Matches pm ''.'' = Inr (lastWins (ignorePatterns pm) (normalize ''.''))" by blast
  with m l show False by simp
qed

text \<open>
  C10. For every pattern set and every path, \<open>Matches\<close> and \<open>MatchesWithTracking\<close>
  both return without error, the boolean of \<open>Matches\<close> is the first result of
  \<open>MatchesWithTracking\<close>, and when that result is true so is the second one.
\<close>

theorem C10_tracking_agrees:
  "\<exists>ignored anyPatternMatched.
      MatchesWithTracking pm file = Inr (ignored, anyPatternMatched)
    \<and> Matches pm file = Inr ignored
    \<and> (ignored \<longrightarrow> anyPatternMatched)"
  by (auto simp: Matches_lastWins Tracking_lastWins lastWins_def)

theorem C10_tracking_agrees_witness:
  "(case NewPatternMatcher [''*.log'', ''!important.log''] of
      Inl e \<Rightarrow> False
    | Inr pm \<Rightarrow> MatchesWithTracking pm ''app.log'' = Inr (True, True)
        \<and> Matches pm ''app.log'' = Inr True
        \<and> MatchesWithTracking pm ''important.log'' = Inr (False, True)
        \<and> Matches pm ''important.log'' = Inr False
        \<and> MatchesWithTracking pm ''readme.md'' = Inr (False, False))"
proof -
  have computed:
    "(case NewPatternMatcher [''*.log'', ''!important.log''] of
        Inl e \<Rightarrow> False
      | Inr pm \<Rightarrow> MatchesWithTracking pm ''app.log'' = Inr (True, True)
          \<and> Matches pm ''app.log'' = Inr True
          \<and> MatchesWithTracking pm ''important.log'' = Inr (False, True)
          \<and> Matches pm ''important.log'' = Inr False
          \<and> MatchesWithTracking pm ''readme.md'' = Inr (False, False))"
    by code_simp
  show ?thesis
    using C10_tracking_agrees
      [of "projr (NewPatternMatcher [''*.log'', ''!important.log''])" "''app.log''"]
      computed
    apply -
    apply assumption
    done
qed

section \<open>Hierarchical resolution\<close>

lemma level_step:
  "levelsLoop rm a r (d # ds) m =
     levelsLoop rm a r ds
       (if levelFiring rm a r d = [] then m else \<not> negate (last (levelFiring rm a r d)))"
proof (cases "matchers rm d")
  case None
  then show ?thesis by (simp add: levelFiring_def)
next
  case (Some pm)
  show ?thesis
  proof (cases "levelPath rm a r d")
    case (Inl e)
    with Some show ?thesis by (simp add: levelFiring_def levelPath_def)
  next
    case (Inr mp)
    have lf: "levelFiring rm a r d
        = (if trivialPath mp then [] else firing (ignorePatterns pm) (normalize mp))"
      using Some Inr by (simp add: levelFiring_def)
    have lp: "(if d = rootDir rm then Inr r else Rel d a) = Inr mp"
      using Inr by (simp add: levelPath_def)
    show ?thesis
      by (simp only: levelsLoop.simps Some lp option.case sum.case Tracking_lastWins lf
            lastWins_def prod.case split: if_splits)
         simp
  qed
qed

lemma levelsLoop_append:
  "levelsLoop rm a r (ds @ ds') m =
     (case levelsLoop rm a r ds m of Inl e \<Rightarrow> Inl e | Inr m' \<Rightarrow> levelsLoop rm a r ds' m')"
proof (induction ds arbitrary: m)
  case Nil
  show ?case by simp
next
  case (Cons d ds)
  show ?case by (simp only: append_Cons level_step Cons.IH)
qed

lemma levelsLoop_single:
  "levelsLoop rm a r [d] m =
     Inr (if levelFiring rm a r d = [] then m else \<not> negate (last (levelFiring rm a r d)))"
  by (simp only: level_step levelsLoop.simps(1))

lemma levelsLoop_total: "\<exists>m'. levelsLoop rm a r ds m = Inr m'"
proof (induction ds arbitrary: m)
  case Nil
  show ?case by simp
next
  case (Cons d ds)
  show ?case by (simp only: level_step Cons.IH)
qed

lemma levelFiring_silent:
  assumes "\<forall>pm matchPath p. matchers rm d = Some pm \<and> levelPath rm a r d = Inr matchPath
             \<and> p \<in> set (ignorePatterns pm) \<longrightarrow> matchPattern (normalize matchPath) p \<noteq> Inr True"
  shows "levelFiring rm a r d = []"
  using assms
  by (auto simp: levelFiring_def firing_def filter_empty_conv split: option.splits sum.splits)

text \<open>
  C4. In the loop of \<open>RepositoryMatcher.Matches\<close> over the directories from the root
  down, every level returns without error, and the running decision after a level is
  the decision before it unless a pattern of that level's set matches the path made
  relative to that level; then it is the negation of the \<open>negate\<close> flag of the last such
  pattern. In particular a level none of whose patterns matches, negations included,
  leaves the shallower decision as it was.
\<close>

theorem C4_silent_level_keeps_decision:
  "(\<exists>m. levelsLoop rm a r ds m0 = Inr m
        \<and> levelsLoop rm a r (ds @ [d]) m0
            = Inr (if levelFiring rm a r d = [] then m
                   else \<not> negate (last (levelFiring rm a r d))))
   \<and> ((\<forall>pm matchPath p. matchers rm d = Some pm \<and> levelPath rm a r d = Inr matchPath
             \<and> p \<in> set (ignorePatterns pm) \<longrightarrow> matchPattern (normalize matchPath) p \<noteq> Inr True)
        \<longrightarrow> levelsLoop rm a r (ds @ [d]) m0 = levelsLoop rm a r ds m0)"
proof -
  obtain m where m: "levelsLoop rm a r ds m0 = Inr m"
    using levelsLoop_total by blast
  have step: "levelsLoop rm a r (ds @ [d]) m0
      = Inr (if levelFiring rm a r d = [] then m else \<not> negate (last (levelFiring rm a r d)))"
    by (simp only: levelsLoop_append m levelsLoop_single sum.case)
  show ?thesis
  proof (intro conjI impI)
    show "\<exists>m. levelsLoop rm a r ds m0 = Inr m
        \<and> levelsLoop rm a r (ds @ [d]) m0
            = Inr (if levelFiring rm a r d = [] then m
                   else \<not> negate (last (levelFiring rm a r d)))"
      using m step by blast
  next
    assume "\<forall>pm matchPath p. matchers rm d = Some pm \<and> levelPath rm a r d = Inr matchPath
             \<and> p \<in> set (ignorePatterns pm) \<longrightarrow> matchPattern (normalize matchPath) p \<noteq> Inr True"
    then have "levelFiring rm a r d = []" by (rule levelFiring_silent)
    with m step show "levelsLoop rm a r (ds @ [d]) m0 = levelsLoop rm a r ds m0" by simp
  qed
qed

theorem C4_silent_level_keeps_decision_witness:
  "(case (NewPatternMatcher [''*.txt''], NewPatternMatcher [''!important.txt'']) of
     (Inr upper, Inr nested) \<Rightarrow>
        levelFiring (exampleRepo upper nested) ''/repo/special/file.txt'' ''special/file.txt''
          ''/repo/special'' = []
      \<and> levelsLoop (exampleRepo upper nested) ''/repo/special/file.txt'' ''special/file.txt''
           ([''/repo''] @ [''/repo/special'']) False = Inr True
      \<and> levelsLoop (exampleRepo upper nested) ''/repo/special/file.txt'' ''special/file.txt''
           [''/repo''] False = Inr True
      \<and> RepositoryMatcher_Matches (exampleRepo upper nested) ''special/file.txt'' = Inr True
      \<and> RepositoryMatcher_Matches (exampleRepo upper nested) ''special/important.txt'' = Inr False
   | _ \<Rightarrow> False)"
proof -
  have computed:
    "(case (NewPatternMatcher [''*.txt''], NewPatternMatcher [''!important.txt'']) of
       (Inr upper, Inr nested) \<Rightarrow>
          levelFiring (exampleRepo upper nested) ''/repo/special/file.txt'' ''special/file.txt''
            ''/repo/special'' = []
        \<and> levelsLoop (exampleRepo upper nested) ''/repo/special/file.txt'' ''special/file.txt''
             ([''/repo''] @ [''/repo/special'']) False = Inr True
        \<and> levelsLoop (exampleRepo upper nested) ''/repo/special/file.txt'' ''special/file.txt''
             [''/repo''] False = Inr True
        \<and> RepositoryMatcher_Matches (exampleRepo upper nested) ''special/file.txt'' = Inr True
        \<and> RepositoryMatcher_Matches (exampleRepo upper nested) ''special/important.txt'' = Inr False
     | _ \<Rightarrow> False)"
    by code_simp
  show ?thesis
    using C4_silent_level_keeps_decision
      [of "exampleRepo (projr (NewPatternMatcher [''*.txt'']))
             (projr (NewPatternMatcher [''!important.txt'']))"
          "''/repo/special/file.txt''" "''special/file.txt''" "[''/repo'']" False "''/repo/special''"]
      computed
    apply -
    apply assumption
    done
qed

text \<open>
  C6. The claim holds of no path outside the root whose text begins with the text of
  the root: the test is \<open>strings.HasPrefix(absPath, rm.rootDir)\<close>, with no separator
  after the root. With the root \<open>/root\<close>, the path \<open>/root-extra/notes.txt\<close> is answered
  without error, and by the rules of \<open>/root\<close>, while \<open>/other/notes.txt\<close> is refused.
\<close>

theorem C6_sibling_directory_accepted:
  "(case NewPatternMatcher [''*.txt''] of
      Inl e \<Rightarrow> False
    | Inr pm \<Rightarrow>
        absolutePath \<lparr> rootDir = ''/root'', matchers = [''/root'' \<mapsto> pm] \<rparr>
          ''/root-extra/notes.txt'' = ''/root-extra/notes.txt''
      \<and> RepositoryMatcher_Matches \<lparr> rootDir = ''/root'', matchers = [''/root'' \<mapsto> pm] \<rparr>
          ''/root-extra/notes.txt'' = Inr True
      \<and> RepositoryMatcher_Matches \<lparr> rootDir = ''/root'', matchers = [''/root'' \<mapsto> pm] \<rparr>
          ''../root-extra/notes.txt'' = Inr True
      \<and> RepositoryMatcher_Matches \<lparr> rootDir = ''/root'', matchers = [''/root'' \<mapsto> pm] \<rparr>
          ''/other/notes.txt'' = Inl (OutsideRoot ''/other/notes.txt'' ''/root''))"
  by code_simp

section \<open>Negation and its escape\<close>

lemma compileLine_single_bang:
  "TrimSpace line = ''!'' \<Longrightarrow> compileLine i line = Inl (SingleBang (i + 1))"
  by (simp add: compileLine_def HasPrefix_def)

lemma compileLine_negation:
  "TrimSpace line = CHR ''!'' # rest \<Longrightarrow> rest \<noteq> [] \<Longrightarrow> compileLine i line = compileBody i rest True"
  by (simp add: compileLine_def HasPrefix_def)

lemma compileLine_escaped:
  "TrimSpace line = bslash # CHR ''!'' # rest \<Longrightarrow> compileLine i line = compileBody i (CHR ''!'' # rest) False"
  by (simp add: compileLine_def HasPrefix_def)

lemma compileBody_negate:
  "compileBody i body neg = Inr (Some p) \<Longrightarrow>
     negate p = neg \<and> compileBody i body (\<not> neg) = Inr (Some (p\<lparr>negate := \<not> neg\<rparr>))"
  by (auto simp: compileBody_def Let_def split: if_splits sum.splits)

lemma compileBody_keeps_bang:
  assumes "compileBody i (CHR ''!'' # rest) neg = Inr (Some p)"
  shows "pattern p \<noteq> [] \<and> hd (pattern p) = CHR ''!''"
proof -
  define b where "b = ReplaceAll (CHR ''!'' # rest) bslash slash"
  have b: "b = CHR ''!'' # ReplaceAll rest bslash slash" by (simp add: b_def ReplaceAll_def)
  have nr: "\<not> HasPrefix b ''/''" by (simp add: b HasPrefix_def)
  define q where "q = (if HasSuffix b ''/'' then TrimSuffix b ''/'' else b)"
  have pq: "pattern p = q" and qne: "q \<noteq> []"
    using assms nr
    by (auto simp: compileBody_def Let_def b_def [symmetric] q_def split: if_splits sum.splits)
  have "q = b \<or> q = take (length b - 1) b" by (simp add: q_def TrimSuffix_def)
  then have "hd q = CHR ''!''"
  proof
    assume "q = b" then show ?thesis by (simp add: b)
  next
    assume t: "q = take (length b - 1) b"
    with qne have "length b - 1 \<noteq> 0" by auto
    then obtain n where "length b - 1 = Suc n" by (cases "length b - 1") auto
    with t show ?thesis by (simp add: b)
  qed
  with pq qne show ?thesis by simp
qed

lemma buildFrom_single_bang:
  "l \<in> set lines \<Longrightarrow> TrimSpace l = ''!'' \<Longrightarrow> \<exists>e. buildFrom i lines = Inl e"
proof (induction lines arbitrary: i)
  case Nil
  then show ?case by simp
next
  case (Cons a lines)
  show ?case
  proof (cases "a = l")
    case True
    with Cons.prems show ?thesis by (simp add: compileLine_single_bang)
  next
    case False
    with Cons.prems have "l \<in> set lines" by simp
    from Cons.IH [OF this Cons.prems(2)] obtain e where "buildFrom (i + 1) lines = Inl e" by blast
    then show ?thesis by (simp split: sum.splits option.splits)
  qed
qed

lemma scenario_escaped_bang: "(case NewPatternMatcher [bslash # ''!keep.txt''] of
      Inl e \<Rightarrow> False
    | Inr pm \<Rightarrow> Matches pm ''!keep.txt'' = Inr True \<and> Matches pm ''keep.txt'' = Inr False
        \<and> map negate (ignorePatterns pm) = [False]
        \<and> map pattern (ignorePatterns pm) = [''!keep.txt''])"
  by code_simp

text \<open>
  C8. A line that is a lone \<open>!\<close> after trimming is an error, and makes the construction
  of the whole set fail. A line that starts with \<open>!\<close> is compiled as the text after the
  \<open>!\<close> with \<open>negate\<close> set; a line that starts with \<open>\!\<close> is compiled as the text after
  the backslash with \<open>negate\<close> clear, and the pattern compiled from it begins with the
  literal \<open>!\<close>. The flag is all that negation changes in the compiled pattern. The set
  of the one line \<open>\!keep.txt\<close> ignores \<open>!keep.txt\<close> and does not ignore \<open>keep.txt\<close>.
\<close>

theorem C8_negation_and_escape:
  "(TrimSpace line = ''!'' \<longrightarrow> compileLine i line = Inl (SingleBang (i + 1)))
   \<and> (l \<in> set lines \<and> TrimSpace l = ''!'' \<longrightarrow> (\<exists>e. NewPatternMatcher lines = Inl e))
   \<and> (TrimSpace line = CHR ''!'' # rest \<and> rest \<noteq> [] \<longrightarrow>
        compileLine i line = compileBody i rest True)
   \<and> (TrimSpace line = bslash # CHR ''!'' # rest \<longrightarrow>
        compileLine i line = compileBody i (CHR ''!'' # rest) False)
   \<and> (compileBody i body neg = Inr (Some p) \<longrightarrow>
        negate p = neg \<and> compileBody i body (\<not> neg) = Inr (Some (p\<lparr>negate := \<not> neg\<rparr>)))
   \<and> (compileBody i (CHR ''!'' # rest) neg = Inr (Some p) \<longrightarrow>
        pattern p \<noteq> [] \<and> hd (pattern p) = CHR ''!'')
   \<and> (case NewPatternMatcher [bslash # ''!keep.txt''] of
          Inl e \<Rightarrow> False
        | Inr pm \<Rightarrow> Matches pm ''!keep.txt'' = Inr True \<and> Matches pm ''keep.txt'' = Inr False)"
proof (intro conjI impI)
  assume "l \<in> set lines \<and> TrimSpace l = ''!''"
  then obtain e where "buildFrom 0 lines = Inl e" using buildFrom_single_bang by blast
  then show "\<exists>e. NewPatternMatcher lines = Inl e"
    by (simp add: NewPatternMatcher_def buildIgnorePatterns_def)
next
  show "case NewPatternMatcher [bslash # ''!keep.txt''] of
          Inl e \<Rightarrow> False
        | Inr pm \<Rightarrow> Matches pm ''!keep.txt'' = Inr True \<and> Matches pm ''keep.txt'' = Inr False"
    using scenario_escaped_bang by (simp split: sum.splits)
qed (simp_all add: compileLine_single_bang compileLine_negation compileLine_escaped
       compileBody_negate compileBody_keeps_bang)

theorem C8_negation_and_escape_witness:
  "(case compileLine 0 ''  !debug.log '' of
      Inr (Some p) \<Rightarrow> TrimSpace ''  !debug.log '' = CHR ''!'' # ''debug.log''
          \<and> negate p \<and> pattern p = ''debug.log''
          \<and> compileBody 0 ''debug.log'' False = Inr (Some (p\<lparr>negate := False\<rparr>))
    | _ \<Rightarrow> False)
   \<and> (case compileLine 0 (bslash # ''!keep.txt'') of
      Inr (Some p) \<Rightarrow> \<not> negate p \<and> pattern p = ''!keep.txt''
    | _ \<Rightarrow> False)
   \<and> TrimSpace '' ! '' = ''!''
   \<and> compileLine 1 '' ! '' = Inl (SingleBang 2)
   \<and> NewPatternMatcher [''*.log'', '' ! ''] = Inl (SingleBang 2)"
proof -
  have computed:
    "(case compileLine 0 ''  !debug.log '' of
        Inr (Some p) \<Rightarrow> TrimSpace ''  !debug.log '' = CHR ''!'' # ''debug.log''
            \<and> negate p \<and> pattern p = ''debug.log''
            \<and> compileBody 0 ''debug.log'' False = Inr (Some (p\<lparr>negate := False\<rparr>))
      | _ \<Rightarrow> False)
     \<and> (case compileLine 0 (bslash # ''!keep.txt'') of
        Inr (Some p) \<Rightarrow> \<not> negate p \<and> pattern p = ''!keep.txt''
      | _ \<Rightarrow> False)
     \<and> TrimSpace '' ! '' = ''!''
     \<and> compileLine 1 '' ! '' = Inl (SingleBang 2)
     \<and> NewPatternMatcher [''*.log'', '' ! ''] = Inl (SingleBang 2)"
    by code_simp
  show ?thesis
    using C8_negation_and_escape [of "''  !debug.log ''" 0 "'' ! ''" "[''*.log'', '' ! '']"
        "''debug.log''" "''debug.log''" True]
      computed
    apply -
    apply assumption
    done
qed

section \<open>The expression written for a pattern\<close>

text \<open>
  For a pattern without bracket expression and backslash, \<open>regexp.Compile\<close> accepts
  what \<open>BuildRegex\<close> writes and reads it as \<open>patternRegex\<close>: each piece written for a
  part of the pattern is read back as one item, whatever follows it.
\<close>

lemma parseClass_notSlash:
  "parseClass (CHR ''^'' # slash # CHR '']'' # t) = Inr (notSlash, t)"
  apply (simp add: parseClass_def)
  apply (subst classItems.simps)
  apply (simp add: parseNamedClass_def)
  apply (subst classItems.simps)
  apply simp
  done

lemma buildLoop_first:
  "plain P \<Longrightarrow> \<exists>c r. buildLoop P @ CHR ''$'' # t = c # r \<and> c \<noteq> CHR ''?'' \<and> c \<noteq> CHR ''*''"
proof (cases P)
  case Nil
  then show ?thesis by simp
next
  case (Cons a rest)
  assume "plain P"
  with Cons have a: "a \<noteq> CHR ''[''" "a \<noteq> bslash" by (auto simp: plain_def)
  show ?thesis
    using a by (auto simp: Cons writeWildcard_def)
qed

lemma piece_dirs:
  "x \<noteq> CHR ''?'' \<Longrightarrow> parse_loop (''(.*?/)?'' @ x # xs) (items # stk) lr
     = parse_loop (x # xs) ((anyDirs # items) # stk) True"
  by simp

lemma piece_any:
  "x \<noteq> CHR ''?'' \<Longrightarrow> parse_loop (''.*'' @ x # xs) (items # stk) lr
     = parse_loop (x # xs) ((Star AnyCharNotNL # items) # stk) True"
  by simp

lemma piece_star:
  "x \<noteq> CHR ''?'' \<Longrightarrow> parse_loop (''[^/]*'' @ x # xs) (items # stk) lr
     = parse_loop (x # xs) ((Star notSlash # items) # stk) True"
  by (simp add: parseClass_notSlash)

lemma piece_quest:
  "parse_loop (''[^/]'' @ xs) (items # stk) lr = parse_loop xs ((notSlash # items) # stk) False"
  by (simp add: parseClass_notSlash)

lemma piece_esc:
  "c \<in> set ''.+^$(){}|'' \<Longrightarrow> parse_loop (bslash # c # xs) (items # stk) lr
     = parse_loop xs ((Lit c # items) # stk) False"
  by (auto simp: in_range_def isalnum_def)

lemma piece_lit:
  "c \<notin> set ''.+^$(){}|'' \<Longrightarrow> c \<noteq> CHR ''*'' \<Longrightarrow> c \<noteq> CHR ''?'' \<Longrightarrow> c \<noteq> CHR ''[''
     \<Longrightarrow> c \<noteq> bslash \<Longrightarrow>
   parse_loop (c # xs) (items # stk) lr = parse_loop xs ((Lit c # items) # stk) False"
  by simp

lemma plain_Cons: "plain (c # r) \<longleftrightarrow> c \<noteq> CHR ''['' \<and> c \<noteq> bslash \<and> plain r"
  by (auto simp: plain_def)

lemma plain_tl: "plain r \<Longrightarrow> plain (tl r)"
  by (cases r) (auto simp: plain_def)

lemma parse_plain:
  "plain P \<Longrightarrow>
   parse_loop (buildLoop P @ CHR ''$'' # t) (items # stk) lr
     = parse_loop t ((EndText # rev (translate P) @ items) # stk) False"
proof (induction P arbitrary: items lr rule: translate.induct)
  case 1
  show ?case by simp
next
  case (2 c rest)
  from "2.prems" have c: "c \<noteq> CHR ''[''" "c \<noteq> bslash" and pr: "plain rest"
    by (simp_all add: plain_Cons)
  show ?case
  proof (cases "c = CHR ''*''")
    case True
    note star = True
    show ?thesis
    proof (cases "rest \<noteq> [] \<and> hd rest = CHR ''*''")
      case True
      note two = True
      show ?thesis
      proof (cases "tl rest \<noteq> [] \<and> hd (tl rest) = slash")
        case True
        have pl: "plain (tl (tl rest))" using pr by (intro plain_tl)
        from buildLoop_first [OF pl, of t] obtain x xs
          where x: "buildLoop (tl (tl rest)) @ CHR ''$'' # t = x # xs" "x \<noteq> CHR ''?''" by blast
        have b: "buildLoop (c # rest) = ''(.*?/)?'' @ buildLoop (tl (tl rest))"
          using star two True by (simp add: writeWildcard_def)
        have "parse_loop (buildLoop (c # rest) @ CHR ''$'' # t) (items # stk) lr
            = parse_loop (''(.*?/)?'' @ x # xs) (items # stk) lr"
          by (simp only: b append_assoc x(1))
        also have "\<dots> = parse_loop (x # xs) ((anyDirs # items) # stk) True"
          using x(2) by (rule piece_dirs)
        also have "\<dots> = parse_loop t ((EndText # rev (translate (tl (tl rest))) @ anyDirs # items) # stk) False"
          using "2.IH"(1) [OF star two True pl, of "anyDirs # items" True] by (simp only: x(1))
        finally have eq: "parse_loop (buildLoop (c # rest) @ CHR ''$'' # t) (items # stk) lr = \<dots>" .
        have tr: "rev (translate (c # rest)) @ items = rev (translate (tl (tl rest))) @ anyDirs # items"
          using star two True by simp
        show ?thesis by (simp only: eq tr)
      next
        case False
        have pl: "plain (tl rest)" using pr by (intro plain_tl)
        from buildLoop_first [OF pl, of t] obtain x xs
          where x: "buildLoop (tl rest) @ CHR ''$'' # t = x # xs" "x \<noteq> CHR ''?''" by blast
        have b: "buildLoop (c # rest) = ''.*'' @ buildLoop (tl rest)"
          using star two False by (simp add: writeWildcard_def)
        have "parse_loop (buildLoop (c # rest) @ CHR ''$'' # t) (items # stk) lr
            = parse_loop (''.*'' @ x # xs) (items # stk) lr"
          by (simp only: b append_assoc x(1))
        also have "\<dots> = parse_loop (x # xs) ((Star AnyCharNotNL # items) # stk) True"
          using x(2) by (rule piece_any)
        also have "\<dots> = parse_loop t ((EndText # rev (translate (tl rest)) @ Star AnyCharNotNL # items) # stk) False"
          using "2.IH"(2) [OF star two False pl, of "Star AnyCharNotNL # items" True] by (simp only: x(1))
        finally have eq: "parse_loop (buildLoop (c # rest) @ CHR ''$'' # t) (items # stk) lr = \<dots>" .
        have tr: "rev (translate (c # rest)) @ items = rev (translate (tl rest)) @ Star AnyCharNotNL # items"
          using star two False by simp
        show ?thesis by (simp only: eq tr)
      qed
    next
      case False
      from buildLoop_first [OF pr, of t] obtain x xs
        where x: "buildLoop rest @ CHR ''$'' # t = x # xs" "x \<noteq> CHR ''?''" by blast
      have b: "buildLoop (c # rest) = ''[^/]*'' @ buildLoop rest"
        using star False by (auto simp: writeWildcard_def)
      have "parse_loop (buildLoop (c # rest) @ CHR ''$'' # t) (items # stk) lr
          = parse_loop (''[^/]*'' @ x # xs) (items # stk) lr"
        by (simp only: b append_assoc x(1))
      also have "\<dots> = parse_loop (x # xs) ((Star notSlash # items) # stk) True"
        using x(2) by (rule piece_star)
      also have "\<dots> = parse_loop t ((EndText # rev (translate rest) @ Star notSlash # items) # stk) False"
        using "2.IH"(3) [OF star False pr, of "Star notSlash # items" True] by (simp only: x(1))
      finally have eq: "parse_loop (buildLoop (c # rest) @ CHR ''$'' # t) (items # stk) lr = \<dots>" .
      have tr: "rev (translate (c # rest)) @ items = rev (translate rest) @ Star notSlash # items"
        using star False by simp
      show ?thesis by (simp only: eq tr)
    qed
  next
    case False
    note nostar = False
    show ?thesis
    proof (cases "c = CHR ''?''")
      case True
      have b: "buildLoop (c # rest) = ''[^/]'' @ buildLoop rest"
        using True by simp
      have "parse_loop (buildLoop (c # rest) @ CHR ''$'' # t) (items # stk) lr
          = parse_loop (''[^/]'' @ (buildLoop rest @ CHR ''$'' # t)) (items # stk) lr"
        by (simp only: b append_assoc)
      also have "\<dots> = parse_loop (buildLoop rest @ CHR ''$'' # t) ((notSlash # items) # stk) False"
        by (rule piece_quest)
      also have "\<dots> = parse_loop t ((EndText # rev (translate rest) @ notSlash # items) # stk) False"
        by (rule "2.IH"(4) [OF nostar True pr])
      finally have eq: "parse_loop (buildLoop (c # rest) @ CHR ''$'' # t) (items # stk) lr = \<dots>" .
      have tr: "rev (translate (c # rest)) @ items = rev (translate rest) @ notSlash # items"
        using nostar True by simp
      show ?thesis by (simp only: eq tr)
    next
      case False
      note noq = False
      have step: "parse_loop (buildLoop (c # rest) @ CHR ''$'' # t) (items # stk) lr
          = parse_loop (buildLoop rest @ CHR ''$'' # t) ((Lit c # items) # stk) False"
      proof (cases "c \<in> set ''.+^$(){}|''")
        case True
        then have b: "buildLoop (c # rest) = bslash # c # buildLoop rest"
          using nostar noq c by simp
        show ?thesis unfolding b append_Cons by (rule piece_esc [OF True])
      next
        case False
        then have b: "buildLoop (c # rest) = c # buildLoop rest"
          using nostar noq c by simp
        show ?thesis unfolding b append_Cons by (rule piece_lit [OF False nostar noq c])
      qed
      also have "\<dots> = parse_loop t ((EndText # rev (translate rest) @ Lit c # items) # stk) False"
        by (rule "2.IH"(5) [OF nostar noq pr])
      finally have eq: "parse_loop (buildLoop (c # rest) @ CHR ''$'' # t) (items # stk) lr = \<dots>" .
      have tr: "rev (translate (c # rest)) @ items = rev (translate rest) @ Lit c # items"
        using nostar noq by simp
      show ?thesis by (simp only: eq tr)
    qed
  qed
qed

lemma BuildRegex_plain:
  assumes "plain P" "BuildRegex P = Inr re"
  shows "re = patternRegex P"
proof -
  have ne: "P \<noteq> []" using assms(2) by (auto simp: BuildRegex_def)
  have "regexp_Compile (''^'' @ buildLoop P @ ''$'')
      = parse_loop (buildLoop P @ CHR ''$'' # []) ([BeginText] # []) False"
    by (simp add: regexp_Compile_def)
  also have "\<dots> = parse_loop [] ((EndText # rev (translate P) @ [BeginText]) # []) False"
    using assms(1) by (rule parse_plain)
  also have "\<dots> = Inr (patternRegex P)"
    by (simp add: patternRegex_def)
  finally have "BuildRegex P = Inr (patternRegex P)" using ne by (simp add: BuildRegex_def)
  with assms(2) show ?thesis by simp
qed

section \<open>What the expression matches\<close>

lemma read_char_iff:
  "read_char Q (b, s) k = (\<exists>x xs. s = x # xs \<and> Q x \<and> k (False, xs))"
  by (cases s) (simp_all add: read_char_def)

lemma star_read:
  assumes k: "\<And>b v. k (b, v) = K v"
  shows "length s \<le> n \<Longrightarrow>
    star_iter n (read_char Q) (b, s) k = (\<exists>u v. s = u @ v \<and> (\<forall>x\<in>set u. Q x) \<and> K v)"
proof (induction n arbitrary: s b)
  case 0
  then show ?case by (simp add: k)
next
  case (Suc n)
  show ?case
  proof (cases s)
    case Nil
    then show ?thesis by (simp add: k read_char_iff)
  next
    case (Cons x xs)
    with Suc.prems have len: "length xs \<le> n" by simp
    have ih: "star_iter n (read_char Q) (False, xs) k
        = (\<exists>u v. xs = u @ v \<and> (\<forall>x\<in>set u. Q x) \<and> K v)"
      using len by (rule Suc.IH)
    have "star_iter (Suc n) (read_char Q) (b, s) k
        = (K s \<or> (Q x \<and> (\<exists>u v. xs = u @ v \<and> (\<forall>x\<in>set u. Q x) \<and> K v)))"
      by (simp add: k read_char_iff Cons ih)
    also have "\<dots> = (\<exists>u v. s = u @ v \<and> (\<forall>x\<in>set u. Q x) \<and> K v)"
    proof
      assume "K s \<or> (Q x \<and> (\<exists>u v. xs = u @ v \<and> (\<forall>x\<in>set u. Q x) \<and> K v))"
      then show "\<exists>u v. s = u @ v \<and> (\<forall>x\<in>set u. Q x) \<and> K v"
      proof
        assume "K s"
        then have "s = [] @ s \<and> (\<forall>x\<in>set []. Q x) \<and> K s" by simp
        then show ?thesis by blast
      next
        assume "Q x \<and> (\<exists>u v. xs = u @ v \<and> (\<forall>x\<in>set u. Q x) \<and> K v)"
        then obtain u v where "Q x" "xs = u @ v" "\<forall>x\<in>set u. Q x" "K v" by blast
        then have "s = (x # u) @ v \<and> (\<forall>y\<in>set (x # u). Q y) \<and> K v" by (simp add: Cons)
        then show ?thesis by blast
      qed
    next
      assume "\<exists>u v. s = u @ v \<and> (\<forall>x\<in>set u. Q x) \<and> K v"
      then obtain u v where uv: "s = u @ v" "\<forall>x\<in>set u. Q x" "K v" by blast
      show "K s \<or> (Q x \<and> (\<exists>u v. xs = u @ v \<and> (\<forall>x\<in>set u. Q x) \<and> K v))"
      proof (cases u)
        case Nil
        with uv show ?thesis by simp
      next
        case (Cons y u')
        with uv \<open>s = x # xs\<close> have "y = x" "xs = u' @ v" "Q x" "\<forall>x\<in>set u'. Q x" by auto
        with uv(3) show ?thesis by blast
      qed
    qed
    finally show ?thesis .
  qed
qed

lemma accept_star_read:
  assumes "\<And>b v. k (b, v) = K v" and "accept r = read_char Q"
  shows "accept (Star r) (b, s) k = (\<exists>u v. s = u @ v \<and> (\<forall>x\<in>set u. Q x) \<and> K v)"
proof -
  have "star_iter (length s) (read_char Q) (b, s) k
      = (\<exists>u v. s = u @ v \<and> (\<forall>x\<in>set u. Q x) \<and> K v)"
    by (rule star_read [where k = k and K = K]) (simp_all add: assms(1))
  then show ?thesis by (simp add: assms(2))
qed

lemma notSlash_mem: "class_mem True [CRange slash slash] x = (x \<noteq> slash)"
proof -
  have "(of_char x :: nat) = of_char slash \<longleftrightarrow> x = slash" by (rule of_char_eq_iff)
  then show ?thesis by (auto simp: class_mem_def in_range_def)
qed

lemma notSlash_fun: "class_mem True [CRange slash slash] = (\<lambda>x. x \<noteq> slash)"
  by (rule ext) (rule notSlash_mem)

lemma accept_anyDirs:
  assumes k: "\<And>b v. k (b, v) = K v"
  shows "accept anyDirs (b, s) k
     = (K s \<or> (\<exists>u v. s = u @ slash # v \<and> newline \<notin> set u \<and> K v))"
proof -
  let ?k' = "\<lambda>st'. accept (Concat (Lit slash) EmptyMatch) st' k"
  have k': "\<And>b v. ?k' (b, v) = (\<exists>w. v = slash # w \<and> K w)"
    by (auto simp: read_char_iff k)
  have "accept (Star AnyCharNotNL) (b, s) ?k'
      = (\<exists>u v. s = u @ v \<and> (\<forall>x\<in>set u. x \<noteq> newline) \<and> (\<exists>w. v = slash # w \<and> K w))"
    by (rule accept_star_read [where K = "\<lambda>v. \<exists>w. v = slash # w \<and> K w"
          and Q = "\<lambda>x. x \<noteq> newline"]) (auto simp: read_char_iff k)
  then show ?thesis by (auto simp: k)
qed

lemma translate_dirs:
  "rest \<noteq> [] \<and> hd rest = CHR ''*'' \<Longrightarrow> tl rest \<noteq> [] \<and> hd (tl rest) = slash \<Longrightarrow>
   translate (CHR ''*'' # rest) = anyDirs # translate (tl (tl rest))"
  by simp

lemma translate_any:
  "rest \<noteq> [] \<and> hd rest = CHR ''*'' \<Longrightarrow> \<not> (tl rest \<noteq> [] \<and> hd (tl rest) = slash) \<Longrightarrow>
   translate (CHR ''*'' # rest) = Star AnyCharNotNL # translate (tl rest)"
  by auto

lemma translate_star:
  "\<not> (rest \<noteq> [] \<and> hd rest = CHR ''*'') \<Longrightarrow>
   translate (CHR ''*'' # rest) = Star notSlash # translate rest"
  by auto

lemma glob_dirs:
  "rest \<noteq> [] \<and> hd rest = CHR ''*'' \<Longrightarrow> tl rest \<noteq> [] \<and> hd (tl rest) = slash \<Longrightarrow>
   glob (CHR ''*'' # rest) s
     = (glob (tl (tl rest)) s
        \<or> (\<exists>u v. s = u @ slash # v \<and> newline \<notin> set u \<and> glob (tl (tl rest)) v))"
  by simp

lemma glob_any:
  "rest \<noteq> [] \<and> hd rest = CHR ''*'' \<Longrightarrow> \<not> (tl rest \<noteq> [] \<and> hd (tl rest) = slash) \<Longrightarrow>
   glob (CHR ''*'' # rest) s = (\<exists>u v. s = u @ v \<and> newline \<notin> set u \<and> glob (tl rest) v)"
  by auto

lemma glob_star:
  "\<not> (rest \<noteq> [] \<and> hd rest = CHR ''*'') \<Longrightarrow>
   glob (CHR ''*'' # rest) s = (\<exists>u v. s = u @ v \<and> slash \<notin> set u \<and> glob rest v)"
  by auto

lemma glob_quest:
  "glob (CHR ''?'' # rest) s = (\<exists>x v. s = x # v \<and> x \<noteq> slash \<and> glob rest v)"
  by simp

lemma glob_lit:
  "c \<noteq> CHR ''*'' \<Longrightarrow> c \<noteq> CHR ''?'' \<Longrightarrow> glob (c # rest) s = (\<exists>v. s = c # v \<and> glob rest v)"
  by simp

lemma accept_Cons:
  "accept (concat_of (r # rs)) st k = accept r st (\<lambda>st'. accept (concat_of rs) st' k)"
  by simp

lemma accept_translate:
  "accept (concat_of (translate P @ [EndText])) (b, s) (\<lambda>st. True) = glob P s"
proof (induction P arbitrary: b s rule: translate.induct)
  case 1
  show ?case by simp
next
  case (2 c rest)
  show ?case
  proof (cases "c = CHR ''*''")
    case True
    note star = True
    show ?thesis
    proof (cases "rest \<noteq> [] \<and> hd rest = CHR ''*''")
      case True
      note two = True
      show ?thesis
      proof (cases "tl rest \<noteq> [] \<and> hd (tl rest) = slash")
        case True
        have k: "\<And>b v. accept (concat_of (translate (tl (tl rest)) @ [EndText])) (b, v) (\<lambda>st. True)
                   = glob (tl (tl rest)) v"
          by (rule "2.IH"(1) [OF star two True])
        show ?thesis
          unfolding star translate_dirs [OF two True] glob_dirs [OF two True] append_Cons accept_Cons
          by (rule accept_anyDirs [where K = "glob (tl (tl rest))"]) (simp add: k)
      next
        case False
        have k: "\<And>b v. accept (concat_of (translate (tl rest) @ [EndText])) (b, v) (\<lambda>st. True)
                   = glob (tl rest) v"
          by (rule "2.IH"(2) [OF star two False])
        have "accept (Star AnyCharNotNL) (b, s)
                (\<lambda>st'. accept (concat_of (translate (tl rest) @ [EndText])) st' (\<lambda>st. True))
            = (\<exists>u v. s = u @ v \<and> (\<forall>x\<in>set u. x \<noteq> newline) \<and> glob (tl rest) v)"
          by (rule accept_star_read [where K = "glob (tl rest)" and Q = "\<lambda>x. x \<noteq> newline"])
             (simp_all add: k)
        also have "\<dots> = (\<exists>u v. s = u @ v \<and> newline \<notin> set u \<and> glob (tl rest) v)"
          by auto
        finally show ?thesis
          unfolding star translate_any [OF two False] glob_any [OF two False] append_Cons accept_Cons .
      qed
    next
      case False
      have k: "\<And>b v. accept (concat_of (translate rest @ [EndText])) (b, v) (\<lambda>st. True)
                 = glob rest v"
        by (rule "2.IH"(3) [OF star False])
      have "accept (Star notSlash) (b, s)
              (\<lambda>st'. accept (concat_of (translate rest @ [EndText])) st' (\<lambda>st. True))
          = (\<exists>u v. s = u @ v \<and> (\<forall>x\<in>set u. x \<noteq> slash) \<and> glob rest v)"
        by (rule accept_star_read [where K = "glob rest" and Q = "\<lambda>x. x \<noteq> slash"])
           (simp_all add: k notSlash_fun)
      also have "\<dots> = (\<exists>u v. s = u @ v \<and> slash \<notin> set u \<and> glob rest v)"
        by auto
      finally show ?thesis
        unfolding star translate_star [OF False] glob_star [OF False] append_Cons accept_Cons .
    qed
  next
    case False
    note nostar = False
    show ?thesis
    proof (cases "c = CHR ''?''")
      case True
      show ?thesis
        using nostar True "2.IH"(4) [OF nostar True]
        by (simp add: read_char_iff notSlash_mem)
    next
      case False
      show ?thesis
        using nostar False "2.IH"(5) [OF nostar False]
        by (simp add: read_char_iff)
    qed
  qed
qed

lemma MatchString_anchored:
  "MatchString (Concat BeginText r) s = accept r (True, s) (\<lambda>st. True)"
proof -
  have "MatchString (Concat BeginText r) s
      = (\<exists>i\<in>set [0 ..< Suc (length s)]. i = 0 \<and> accept r (i = 0, drop i s) (\<lambda>st. True))"
    by (simp add: MatchString_def list_ex_iff del: upt_Suc)
  also have "\<dots> = accept r (True, s) (\<lambda>st. True)"
    by (auto simp del: upt_Suc)
  finally show ?thesis .
qed

lemma MatchString_patternRegex: "MatchString (patternRegex P) s = glob P s"
  by (simp add: patternRegex_def MatchString_anchored accept_translate)


lemma glob_self: "glob P P"
proof (induction P rule: translate.induct)
  case 1
  show ?case by simp
next
  case (2 c rest)
  show ?case
  proof (cases "c = CHR ''*''")
    case True
    note star = True
    show ?thesis
    proof (cases "rest \<noteq> [] \<and> hd rest = CHR ''*''")
      case True
      note two = True
      show ?thesis
      proof (cases "tl rest \<noteq> [] \<and> hd (tl rest) = slash")
        case True
        have r: "rest = CHR ''*'' # slash # tl (tl rest)"
          using two True by (cases rest; cases "tl rest") auto
        have "CHR ''*'' # rest = ''**'' @ slash # tl (tl rest) \<and> newline \<notin> set ''**''
            \<and> glob (tl (tl rest)) (tl (tl rest))"
          using r "2.IH"(1) [OF star two True] by simp
        then show ?thesis
          unfolding star glob_dirs [OF two True] by blast
      next
        case False
        have r: "rest = CHR ''*'' # tl rest" using two by (cases rest) auto
        have "CHR ''*'' # rest = ''**'' @ tl rest \<and> newline \<notin> set ''**'' \<and> glob (tl rest) (tl rest)"
          using r "2.IH"(2) [OF star two False] by simp
        then show ?thesis
          unfolding star glob_any [OF two False] by blast
      qed
    next
      case False
      have "CHR ''*'' # rest = ''*'' @ rest \<and> slash \<notin> set ''*'' \<and> glob rest rest"
        using "2.IH"(3) [OF star False] by simp
      then show ?thesis
        unfolding star glob_star [OF False] by blast
    qed
  next
    case False
    note nostar = False
    show ?thesis
    proof (cases "c = CHR ''?''")
      case True
      with "2.IH"(4) [OF nostar True] show ?thesis by simp
    next
      case False
      with nostar "2.IH"(5) [OF nostar False] show ?thesis by (simp add: glob_lit)
    qed
  qed
qed

lemma doubleStar_Cons: "\<not> doubleStar (c # rest) \<Longrightarrow> \<not> doubleStar rest"
  by (auto simp: doubleStar_def sublist_Cons_right)

lemma doubleStar_head:
  "\<not> doubleStar (CHR ''*'' # rest) \<Longrightarrow> \<not> (rest \<noteq> [] \<and> hd rest = CHR ''*'')"
proof
  assume n: "\<not> doubleStar (CHR ''*'' # rest)" and "rest \<noteq> [] \<and> hd rest = CHR ''*''"
  then have "CHR ''*'' # rest = [] @ ''**'' @ tl rest" by (cases rest) auto
  then have "sublist ''**'' (CHR ''*'' # rest)" unfolding sublist_def by blast
  with n show False by (simp add: doubleStar_def)
qed

lemma glob_slashes:
  "\<not> doubleStar P \<Longrightarrow> glob P s \<Longrightarrow> count_list s slash = count_list P slash"
proof (induction P arbitrary: s)
  case Nil
  then show ?case by simp
next
  case (Cons c rest)
  have nd: "\<not> doubleStar rest" using Cons.prems(1) by (rule doubleStar_Cons)
  show ?case
  proof (cases "c = CHR ''*''")
    case True
    have one: "\<not> (rest \<noteq> [] \<and> hd rest = CHR ''*'')"
      using Cons.prems(1) unfolding True by (rule doubleStar_head)
    from Cons.prems(2) obtain u v where uv: "s = u @ v" "slash \<notin> set u" "glob rest v"
      unfolding True glob_star [OF one] by blast
    have "count_list u slash = 0" using uv(2) by (simp add: count_list_0_iff)
    moreover have "count_list v slash = count_list rest slash"
      using nd uv(3) by (rule Cons.IH)
    ultimately show ?thesis using uv(1) True by simp
  next
    case False
    note nostar = False
    show ?thesis
    proof (cases "c = CHR ''?''")
      case True
      from Cons.prems(2) obtain x v where xv: "s = x # v" "x \<noteq> slash" "glob rest v"
        unfolding True glob_quest by blast
      have "count_list v slash = count_list rest slash"
        using nd xv(3) by (rule Cons.IH)
      then show ?thesis using xv True by simp
    next
      case False
      from Cons.prems(2) obtain v where v: "s = c # v" "glob rest v"
        unfolding glob_lit [OF nostar False] by blast
      have "count_list v slash = count_list rest slash"
        using nd v(2) by (rule Cons.IH)
      then show ?thesis using v by simp
    qed
  qed
qed

lemma glob_no_slash:
  assumes "\<not> doubleStar P" "slash \<notin> set P" "glob P s"
  shows "slash \<notin> set s"
proof -
  have "count_list s slash = count_list P slash" using assms(1,3) by (rule glob_slashes)
  also have "\<dots> = 0" using assms(2) by (simp add: count_list_0_iff)
  finally show ?thesis by (simp add: count_list_0_iff)
qed

section \<open>Segments of a path\<close>

lemma Split_nonempty: "Split f sep \<noteq> []"
  by (induction f) (auto split: list.splits)

lemma Split_append: "Split (a @ sep # b) sep = Split a sep @ Split b sep"
proof (induction a)
  case Nil
  show ?case by simp
next
  case (Cons c a)
  obtain p ps where ps: "Split a sep = p # ps"
    using Split_nonempty [of a sep] by (cases "Split a sep") auto
  show ?case by (simp add: Cons.IH ps)
qed

lemma Split_no_sep: "sep \<notin> set f \<Longrightarrow> Split f sep = [f]"
  by (induction f) auto

lemma Join_Split: "Join (Split f sep) sep = f"
proof (induction f)
  case Nil
  show ?case by simp
next
  case (Cons c f)
  obtain p ps where ps: "Split f sep = p # ps"
    using Split_nonempty [of f sep] by (cases "Split f sep") auto
  show ?case
  proof (cases "c = sep")
    case True
    with Cons.IH ps show ?thesis by simp
  next
    case False
    with Cons.IH ps show ?thesis by (cases ps) auto
  qed
qed

lemma Join_append:
  "xs \<noteq> [] \<Longrightarrow> ys \<noteq> [] \<Longrightarrow> Join (xs @ ys) sep = Join xs sep @ sep # Join ys sep"
proof (induction xs sep rule: Join.induct)
  case (1 sep)
  then show ?case by simp
next
  case (2 p sep)
  then show ?case by (cases ys) auto
next
  case (3 p q ps sep)
  then show ?case by simp
qed



lemma Join_no_sep_single:
  "xs \<noteq> [] \<Longrightarrow> sep \<notin> set (Join xs sep) \<Longrightarrow> \<exists>x. xs = [x]"
  by (induction xs sep rule: Join.induct) auto


lemma Split_recombine:
  assumes "1 \<le> i" "i < length (Split f slash)"
  shows "Join (take i (Split f slash)) slash @ ''/'' @ Join (drop i (Split f slash)) slash = f"
proof -
  let ?xs = "Split f slash"
  have t: "take i ?xs \<noteq> []" using assms by (cases ?xs) auto
  have d: "drop i ?xs \<noteq> []" using assms by simp
  have "f = Join (take i ?xs @ drop i ?xs) slash" by (simp add: Join_Split)
  also have "\<dots> = Join (take i ?xs) slash @ slash # Join (drop i ?xs) slash"
    by (rule Join_append [OF t d])
  finally show ?thesis by simp
qed

lemma Split_segments_no_sep: "seg \<in> set (Split f sep) \<Longrightarrow> sep \<notin> set seg"
proof (induction f arbitrary: seg)
  case Nil
  then show ?case by simp
next
  case (Cons c f)
  obtain p ps where ps: "Split f sep = p # ps"
    using Split_nonempty [of f sep] by (cases "Split f sep") auto
  show ?case
  proof (cases "c = sep")
    case True
    with Cons.prems have "seg = [] \<or> seg \<in> set (Split f sep)" by simp
    then show ?thesis using Cons.IH by auto
  next
    case False
    with Cons.prems ps have "seg = c # p \<or> seg \<in> set ps" by simp
    then show ?thesis
    proof
      assume "seg = c # p"
      moreover have "sep \<notin> set p" using Cons.IH [of p] ps by simp
      ultimately show ?thesis using False by simp
    next
      assume "seg \<in> set ps"
      then show ?thesis using Cons.IH [of seg] ps by simp
    qed
  qed
qed

lemma prefix_slash_iff:
  "(length f > length P \<and> f ! length P = slash \<and> take (length P) f = P) \<longleftrightarrow> prefix (P @ ''/'') f"
proof
  assume a: "length f > length P \<and> f ! length P = slash \<and> take (length P) f = P"
  have "take (length P) f @ drop (length P) f = f" by (rule append_take_drop_id)
  then have "P @ drop (length P) f = f" using a by simp
  moreover from a have "drop (length P) f = slash # drop (Suc (length P)) f"
    by (metis Cons_nth_drop_Suc)
  ultimately have "f = (P @ ''/'') @ drop (Suc (length P)) f" by simp
  then show "prefix (P @ ''/'') f" by (metis prefixI)
next
  assume "prefix (P @ ''/'') f"
  then obtain r where "f = (P @ ''/'') @ r" by (auto simp: prefix_def)
  then show "length f > length P \<and> f ! length P = slash \<and> take (length P) f = P"
    by (simp add: nth_append)
qed

lemma suffix_slash_iff:
  "(length f > length P \<and> drop (length f - length P) f = P \<and> f ! (length f - length P - 1) = slash)
     \<longleftrightarrow> suffix (slash # P) f"
proof
  assume a: "length f > length P \<and> drop (length f - length P) f = P
      \<and> f ! (length f - length P - 1) = slash"
  let ?n = "length f - length P - 1"
  have n: "?n < length f" "Suc ?n = length f - length P" using a by auto
  have "drop ?n f = f ! ?n # drop (Suc ?n) f" using n(1) by (metis Cons_nth_drop_Suc)
  then have "drop ?n f = slash # P" using a n(2) by simp
  then have "f = take ?n f @ slash # P" by (metis append_take_drop_id)
  then show "suffix (slash # P) f" by (metis suffixI)
next
  assume "suffix (slash # P) f"
  then obtain y where f: "f = y @ slash # P" by (auto simp: suffix_def)
  then show "length f > length P \<and> drop (length f - length P) f = P
      \<and> f ! (length f - length P - 1) = slash"
    by (simp add: nth_append)
qed

section \<open>Compiled patterns\<close>

lemma ReplaceAll_removes: "old \<noteq> new \<Longrightarrow> old \<notin> set (ReplaceAll s old new)"
  by (auto simp: ReplaceAll_def)

lemma stripBody_no_bslash: "bslash \<notin> set (stripBody body)"
proof -
  have a: "bslash \<notin> set (ReplaceAll body bslash slash)" by (rule ReplaceAll_removes) simp
  then have u: "bslash \<notin> set (unrooted body)"
    by (auto simp: unrooted_def TrimPrefix_def dest: in_set_dropD)
  then show ?thesis
    by (auto simp: stripBody_def TrimSuffix_def dest: in_set_takeD)
qed

lemma compileBody_eq:
  "compileBody i body neg =
     (if stripBody body = [] then Inl (EmptyBody (i + 1))
      else
        (case BuildRegex (stripBody body) of
           Inl e \<Rightarrow> Inl (RegexFailed (stripBody body) (i + 1) e)
         | Inr re \<Rightarrow>
             Inr (Some \<lparr> pattern = stripBody body, regexPattern = re,
                          isDirectory = dirBody body,
                          negate = neg, hasWildcard = ContainsAny (stripBody body) ''*?'',
                          isRootRelative = rootBody body \<rparr>)))"
  unfolding compileBody_def stripBody_def dirBody_def unrooted_def rootBody_def Let_def
  by (rule refl)

lemma compileLine_body:
  "compileLine i line = Inr (Some p) \<Longrightarrow> \<exists>body neg. compileBody i body neg = Inr (Some p)"
  by (auto simp: compileLine_def Let_def split: if_splits)

lemma compiled_fields:
  assumes "compiled p"
  shows "pattern p \<noteq> []" and "bslash \<notin> set (pattern p)"
    and "BuildRegex (pattern p) = Inr (regexPattern p)"
    and "hasWildcard p = ContainsAny (pattern p) ''*?''"
proof -
  from assms obtain i body neg where c: "compileBody i body neg = Inr (Some p)"
    unfolding compiled_def using compileLine_body by blast
  then have ne: "stripBody body \<noteq> []" by (auto simp: compileBody_eq split: if_splits)
  from c ne obtain re where re: "BuildRegex (stripBody body) = Inr re"
    and p: "pattern p = stripBody body" "regexPattern p = re"
      "hasWildcard p = ContainsAny (stripBody body) ''*?''"
    by (auto simp: compileBody_eq split: sum.splits)
  show "pattern p \<noteq> []" using ne p by simp
  show "bslash \<notin> set (pattern p)" using p stripBody_no_bslash by simp
  show "BuildRegex (pattern p) = Inr (regexPattern p)" using re p by simp
  show "hasWildcard p = ContainsAny (pattern p) ''*?''" using p by simp
qed

lemma compiled_glob:
  assumes "compiled p" "CHR ''['' \<notin> set (pattern p)"
  shows "MatchString (regexPattern p) s = glob (pattern p) s"
proof -
  have pl: "plain (pattern p)" using assms compiled_fields(2) by (simp add: plain_def)
  have "regexPattern p = patternRegex (pattern p)"
    using pl compiled_fields(3) [OF assms(1)] by (rule BuildRegex_plain)
  then show ?thesis by (simp add: MatchString_patternRegex)
qed

section \<open>Matching one pattern\<close>

lemma matchPattern_root:
  "isRootRelative p \<Longrightarrow>
   (matchPattern f p = Inr True)
     = (MatchString (regexPattern p) f \<or> f = pattern p \<or> prefix (pattern p @ ''/'') f)"
  by (auto simp: matchPattern_def matchRootRelativePattern_def HasPrefix_def)

lemma matchDirectoryPattern_iff:
  "matchDirectoryPattern f p = (f = pattern p \<or> prefix (pattern p @ ''/'') f)"
proof -
  let ?P = "pattern p"
  have third: "length f = length ?P + 1 \<and> f ! (length f - 1) = slash \<and> take (length ?P) f = ?P
      \<Longrightarrow> prefix (?P @ ''/'') f"
  proof -
    assume a: "length f = length ?P + 1 \<and> f ! (length f - 1) = slash \<and> take (length ?P) f = ?P"
    then have "length f - 1 = length ?P" by simp
    with a have "length f > length ?P \<and> f ! length ?P = slash \<and> take (length ?P) f = ?P"
      by (metis less_add_one)
    then show ?thesis by (simp only: prefix_slash_iff)
  qed
  show ?thesis
    unfolding matchDirectoryPattern_def Let_def prefix_slash_iff
    using third by auto
qed

lemma matchPathSeparatorPattern_iff:
  "matchPathSeparatorPattern f p = atBoundary (pattern p) f"
  unfolding matchPathSeparatorPattern_def Let_def prefix_slash_iff suffix_slash_iff
    atBoundary_def Contains_def
  by auto

lemma matchWildcardSubpaths_iff:
  "matchWildcardSubpaths f p
     = (\<exists>i<length (Split f slash). MatchString (regexPattern p) (Join (drop i (Split f slash)) slash))"
proof -
  let ?xs = "Split f slash"
  let ?M = "MatchString (regexPattern p)"
  let ?A = "\<exists>i<length ?xs. ?M (Join (drop i ?xs) slash)"
  let ?B = "\<exists>i. 1 \<le> i \<and> i < length ?xs
              \<and> ?M (Join (take i ?xs) slash @ ''/'' @ Join (drop i ?xs) slash)"
  have def: "matchWildcardSubpaths f p = (?A \<or> ?B)"
    unfolding matchWildcardSubpaths_def Let_def list_ex_iff by auto
  have "?B \<Longrightarrow> ?A"
  proof -
    assume ?B
    then obtain i where i: "1 \<le> i" "i < length ?xs"
        and m: "?M (Join (take i ?xs) slash @ ''/'' @ Join (drop i ?xs) slash)" by blast
    from m have "?M f" by (simp only: Split_recombine [OF i])
    then have "?M (Join (drop 0 ?xs) slash)" by (simp add: Join_Split)
    moreover have "0 < length ?xs" using i by linarith
    ultimately show ?A by blast
  qed
  then show ?thesis unfolding def by blast
qed

lemma matchSimplePattern_iff:
  "matchSimplePattern f p = (\<exists>seg\<in>set (Split f slash). MatchString (regexPattern p) seg)"
  by (simp add: matchSimplePattern_def list_ex_iff)

lemma matchPattern_nonroot:
  "\<not> isRootRelative p \<Longrightarrow>
   (matchPattern f p = Inr True)
     = (MatchString (regexPattern p) f
        \<or> (isDirectory p \<and> (f = pattern p \<or> prefix (pattern p @ ''/'') f))
        \<or> (hasWildcard p \<and> (\<exists>i<length (Split f slash).
               MatchString (regexPattern p) (Join (drop i (Split f slash)) slash)))
        \<or> (if Contains (pattern p) ''/'' then atBoundary (pattern p) f
            else (\<exists>seg\<in>set (Split f slash). MatchString (regexPattern p) seg)))"
  unfolding matchPattern_def
  by (simp only: matchDirectoryPattern_iff matchPathSeparatorPattern_iff matchWildcardSubpaths_iff
        matchSimplePattern_iff) auto








lemma Contains_slash: "Contains P ''/'' = (slash \<in> set P)"
proof
  assume "Contains P ''/''"
  then obtain a b where "P = a @ ''/'' @ b" unfolding Contains_def sublist_def by blast
  then show "slash \<in> set P" by simp
next
  assume "slash \<in> set P"
  then obtain a b where "P = a @ slash # b" by (meson split_list)
  then have "P = a @ ''/'' @ b" by simp
  then show "Contains P ''/''" unfolding Contains_def sublist_def by blast
qed














text \<open>
  A pattern with a bracket expression and no wildcard is not tried on the parts of a
  path: \<open>src/[ab].txt\<close> matches \<open>src/a.txt\<close> and not \<open>foo/src/a.txt\<close>.
\<close>

lemma bracket_pattern_below:
  "(case compileLine 0 ''src/[ab].txt'' of
      Inr (Some p) \<Rightarrow> pattern p = ''src/[ab].txt'' \<and> \<not> isRootRelative p \<and> \<not> hasWildcard p
        \<and> matchPattern ''src/a.txt'' p = Inr True \<and> matchPattern ''foo/src/a.txt'' p = Inr False
    | _ \<Rightarrow> False)"
  by code_simp

lemma segment_implies_path:
  assumes "\<not> isRootRelative p" "slash \<notin> set (pattern p)"
    "\<exists>seg\<in>set (Split f slash). MatchString (regexPattern p) seg"
  shows "matchPattern f p = Inr True"
  unfolding matchPattern_nonroot [OF assms(1)] Contains_slash using assms(2,3) by simp

lemma path_implies_segment:
  assumes c: "compiled p" and nr: "\<not> isRootRelative p" and ns: "slash \<notin> set (pattern p)"
    and nb: "CHR ''['' \<notin> set (pattern p)" and nd: "\<not> doubleStar (pattern p)"
    and m: "matchPattern f p = Inr True"
  shows "\<exists>seg\<in>set (Split f slash). MatchString (regexPattern p) seg"
proof -
  let ?P = "pattern p"
  let ?M = "MatchString (regexPattern p)"
  note g = compiled_glob [OF c nb]
  have free: "\<And>s. ?M s \<Longrightarrow> slash \<notin> set s"
    using glob_no_slash [OF nd ns] g by simp
  have self: "?M ?P" using g glob_self by simp
  from m consider "?M f" | "f = ?P \<or> prefix (?P @ ''/'') f"
    | i where "i < length (Split f slash)" "?M (Join (drop i (Split f slash)) slash)"
    | "\<exists>seg\<in>set (Split f slash). ?M seg"
    unfolding matchPattern_nonroot [OF nr] Contains_slash using ns by auto
  then show ?thesis
  proof cases
    case 1
    then have "Split f slash = [f]" using free Split_no_sep by blast
    with 1 show ?thesis by simp
  next
    case 2
    then consider "f = ?P" | r where "f = ?P @ slash # r" by (auto simp: prefix_def)
    then have "?P \<in> set (Split f slash)"
    proof cases
      case 1
      then show ?thesis using ns by (simp add: Split_no_sep)
    next
      case 2
      then show ?thesis using ns by (simp add: Split_append Split_no_sep)
    qed
    with self show ?thesis by blast
  next
    case 3
    have ne: "drop i (Split f slash) \<noteq> []" using 3(1) by simp
    have "slash \<notin> set (Join (drop i (Split f slash)) slash)" using 3(2) by (rule free)
    with ne obtain x where x: "drop i (Split f slash) = [x]" using Join_no_sep_single by blast
    then have "x \<in> set (Split f slash)" by (metis in_set_dropD list.set_intros(1))
    moreover have "?M x" using 3(2) x by simp
    ultimately show ?thesis by blast
  next
    case 4
    then show ?thesis .
  qed
qed

lemma segment_match:
  assumes c: "compiled p" and nr: "\<not> isRootRelative p"
    and nb: "CHR ''['' \<notin> set (pattern p)" and s: "slash \<notin> set seg"
  shows "(matchPattern seg p = Inr True) = MatchString (regexPattern p) seg"
proof -
  let ?P = "pattern p"
  let ?M = "MatchString (regexPattern p)"
  have self: "?M ?P" using compiled_glob [OF c nb] glob_self by simp
  have sp: "Split seg slash = [seg]" using s by (rule Split_no_sep)
  have np: "\<not> prefix (?P @ ''/'') seg" using s by (auto simp: prefix_def)
  have nab: "atBoundary ?P seg \<Longrightarrow> seg = ?P"
    using s unfolding atBoundary_def prefix_def suffix_def sublist_def by auto
  show ?thesis
    unfolding matchPattern_nonroot [OF nr] sp using self np nab by auto
qed

text \<open>
  C7, as amended. For a pattern that is not root-relative and has no \<open>/\<close> in its text:
  when its compiled predicate matches one of the segments of a path, the pattern
  matches the path; and when the pattern has neither \<open>**\<close> nor a bracket expression, it
  matches a path if and only if it matches one of the segments of the path, which it
  does exactly when its predicate matches the segment.
\<close>

theorem C7_segment_matching:
  assumes "compileLine i line = Inr (Some p)"
  shows "\<not> isRootRelative p \<and> slash \<notin> set (pattern p) \<longrightarrow>
      ((\<exists>seg\<in>set (Split f slash). MatchString (regexPattern p) seg) \<longrightarrow> matchPattern f p = Inr True)
    \<and> (CHR ''['' \<notin> set (pattern p) \<and> \<not> doubleStar (pattern p) \<longrightarrow>
          (matchPattern f p = Inr True) = (\<exists>seg\<in>set (Split f slash). matchPattern seg p = Inr True)
        \<and> (\<forall>seg\<in>set (Split f slash).
              (matchPattern seg p = Inr True) = MatchString (regexPattern p) seg))"
proof (intro impI conjI)
  assume a: "\<not> isRootRelative p \<and> slash \<notin> set (pattern p)"
  assume "\<exists>seg\<in>set (Split f slash). MatchString (regexPattern p) seg"
  with a show "matchPattern f p = Inr True" using segment_implies_path by blast
next
  have c: "compiled p" using assms unfolding compiled_def by blast
  assume a: "\<not> isRootRelative p \<and> slash \<notin> set (pattern p)"
    and b: "CHR ''['' \<notin> set (pattern p) \<and> \<not> doubleStar (pattern p)"
  have seg: "\<forall>seg\<in>set (Split f slash). (matchPattern seg p = Inr True) = MatchString (regexPattern p) seg"
    using segment_match [OF c] a b Split_segments_no_sep by blast
  then show "\<forall>seg\<in>set (Split f slash). (matchPattern seg p = Inr True) = MatchString (regexPattern p) seg" .
  have "(matchPattern f p = Inr True) = (\<exists>seg\<in>set (Split f slash). MatchString (regexPattern p) seg)"
    using path_implies_segment [OF c] segment_implies_path a b by blast
  with seg show "(matchPattern f p = Inr True) = (\<exists>seg\<in>set (Split f slash). matchPattern seg p = Inr True)"
    by blast
qed

theorem C7_segment_matching_witness:
  "(case compileLine 0 ''*.log'' of
      Inr (Some p) \<Rightarrow> \<not> isRootRelative p \<and> slash \<notin> set (pattern p)
        \<and> CHR ''['' \<notin> set (pattern p) \<and> \<not> doubleStar (pattern p)
        \<and> list_ex (\<lambda>seg. MatchString (regexPattern p) seg) (Split ''var/app.log/old'' slash)
        \<and> list_ex (\<lambda>seg. matchPattern seg p = Inr True) (Split ''var/app.log/old'' slash)
        \<and> matchPattern ''var/app.log/old'' p = Inr True
        \<and> \<not> list_ex (\<lambda>seg. MatchString (regexPattern p) seg) (Split ''var/app.logs/old'' slash)
        \<and> matchPattern ''var/app.logs/old'' p = Inr False
    | _ \<Rightarrow> False)"
proof -
  have compiles: "compileLine 0 ''*.log'' = Inr (Some (the (projr (compileLine 0 ''*.log''))))"
    by code_simp
  have computed:
    "(case compileLine 0 ''*.log'' of
        Inr (Some p) \<Rightarrow> \<not> isRootRelative p \<and> slash \<notin> set (pattern p)
          \<and> CHR ''['' \<notin> set (pattern p) \<and> \<not> doubleStar (pattern p)
          \<and> list_ex (\<lambda>seg. MatchString (regexPattern p) seg) (Split ''var/app.log/old'' slash)
          \<and> list_ex (\<lambda>seg. matchPattern seg p = Inr True) (Split ''var/app.log/old'' slash)
          \<and> matchPattern ''var/app.log/old'' p = Inr True
          \<and> \<not> list_ex (\<lambda>seg. MatchString (regexPattern p) seg) (Split ''var/app.logs/old'' slash)
          \<and> matchPattern ''var/app.logs/old'' p = Inr False
      | _ \<Rightarrow> False)"
    by code_simp
  show ?thesis
    using C7_segment_matching [OF compiles, of "''var/app.log/old''"]
      computed
    apply -
    apply assumption
    done
qed

text \<open>
  C7 as stated, for every such pattern, fails: the pattern \<open>a**b\<close> has no \<open>/\<close>, its
  predicate matches the whole path \<open>ax/yb\<close>, and it matches neither of the segments
  \<open>ax\<close> and \<open>yb\<close>.
\<close>

theorem C7_double_star_counterexample:
  "(case compileLine 0 ''a**b'' of
      Inr (Some p) \<Rightarrow> \<not> isRootRelative p \<and> slash \<notin> set (pattern p)
        \<and> matchPattern ''ax/yb'' p = Inr True
        \<and> \<not> list_ex (\<lambda>seg. matchPattern seg p = Inr True) (Split ''ax/yb'' slash)
        \<and> \<not> list_ex (\<lambda>seg. MatchString (regexPattern p) seg) (Split ''ax/yb'' slash)
    | _ \<Rightarrow> False)"
  by code_simp

lemma root_self:
  "isRootRelative p \<Longrightarrow> matchPattern (pattern p) p = Inr True"
  "isRootRelative p \<Longrightarrow> matchPattern (pattern p @ slash # x) p = Inr True"
  by (simp_all add: matchPattern_root)

lemma root_only_at_root:
  assumes c: "compiled p" and r: "isRootRelative p"
    and nb: "CHR ''['' \<notin> set (pattern p)" and nd: "\<not> doubleStar (pattern p)"
    and m: "matchPattern f p = Inr True"
  shows "count_list f slash = count_list (pattern p) slash \<or> prefix (pattern p @ ''/'') f"
proof -
  from m consider "MatchString (regexPattern p) f" | "f = pattern p" | "prefix (pattern p @ ''/'') f"
    unfolding matchPattern_root [OF r] by blast
  then show ?thesis
  proof cases
    case 1
    then have "glob (pattern p) f" using compiled_glob [OF c nb] by simp
    then show ?thesis using glob_slashes [OF nd] by blast
  next
    case 2
    then show ?thesis by simp
  next
    case 3
    then show ?thesis by simp
  qed
qed

text \<open>
  C3, as amended. A root-relative pattern \<open>/P\<close> matches \<open>P\<close> itself and \<open>P/x\<close> for every
  \<open>x\<close>. When \<open>P\<close> has neither \<open>**\<close> nor a bracket expression, a path it matches has as
  many \<open>/\<close> as \<open>P\<close> or begins with \<open>P/\<close>; so it matches \<open>a/P/x\<close> only when \<open>a/P/x\<close>
  itself begins with \<open>P/\<close>, that is, lies under the entry \<open>P\<close> of the root. The set of
  the one line \<open>/build/\<close> ignores \<open>build/x.txt\<close> and not \<open>nested/build/x.txt\<close>.
\<close>

theorem C3_root_anchoring:
  assumes "compileLine i line = Inr (Some p)" "isRootRelative p"
  shows "matchPattern (pattern p) p = Inr True
    \<and> matchPattern (pattern p @ slash # x) p = Inr True
    \<and> (CHR ''['' \<notin> set (pattern p) \<and> \<not> doubleStar (pattern p) \<longrightarrow>
         (matchPattern f p = Inr True \<longrightarrow>
            count_list f slash = count_list (pattern p) slash \<or> prefix (pattern p @ ''/'') f)
       \<and> (matchPattern (a @ slash # pattern p @ slash # x) p = Inr True)
            = prefix (pattern p @ ''/'') (a @ slash # pattern p @ slash # x))
    \<and> (case NewPatternMatcher [''/build/''] of
          Inl e \<Rightarrow> False
        | Inr pm \<Rightarrow> Matches pm ''build/x.txt'' = Inr True
            \<and> Matches pm ''nested/build/x.txt'' = Inr False)"
proof -
  have c: "compiled p" using assms(1) unfolding compiled_def by blast
  note r = assms(2)
  have one: "CHR ''['' \<notin> set (pattern p) \<and> \<not> doubleStar (pattern p) \<longrightarrow>
         (matchPattern f p = Inr True \<longrightarrow>
            count_list f slash = count_list (pattern p) slash \<or> prefix (pattern p @ ''/'') f)" for f
    using root_only_at_root [OF c r] by blast
  have two: "CHR ''['' \<notin> set (pattern p) \<and> \<not> doubleStar (pattern p) \<longrightarrow>
       (matchPattern (a @ slash # pattern p @ slash # x) p = Inr True)
            = prefix (pattern p @ ''/'') (a @ slash # pattern p @ slash # x)"
  proof
    assume h: "CHR ''['' \<notin> set (pattern p) \<and> \<not> doubleStar (pattern p)"
    let ?f = "a @ slash # pattern p @ slash # x"
    have cnt: "count_list ?f slash \<noteq> count_list (pattern p) slash" by simp
    show "(matchPattern ?f p = Inr True) = prefix (pattern p @ ''/'') ?f"
    proof
      assume "matchPattern ?f p = Inr True"
      with one [of ?f] h cnt show "prefix (pattern p @ ''/'') ?f" by blast
    next
      assume "prefix (pattern p @ ''/'') ?f"
      then show "matchPattern ?f p = Inr True" by (simp only: matchPattern_root [OF r] simp_thms)
    qed
  qed
  have ex: "(case NewPatternMatcher [''/build/''] of
          Inl e \<Rightarrow> False
        | Inr pm \<Rightarrow> Matches pm ''build/x.txt'' = Inr True
            \<and> Matches pm ''nested/build/x.txt'' = Inr False)"
    by code_simp
  from root_self [OF r] one two ex show ?thesis by blast
qed

theorem C3_root_anchoring_witness:
  "(case compileLine 0 ''/build/'' of
      Inr (Some p) \<Rightarrow> isRootRelative p \<and> pattern p = ''build''
        \<and> CHR ''['' \<notin> set (pattern p) \<and> \<not> doubleStar (pattern p)
        \<and> matchPattern (pattern p) p = Inr True
        \<and> matchPattern (pattern p @ slash # ''x.txt'') p = Inr True
        \<and> matchPattern (''nested'' @ slash # pattern p @ slash # ''x.txt'') p = Inr False
        \<and> \<not> prefix (pattern p @ ''/'') (''nested'' @ slash # pattern p @ slash # ''x.txt'')
    | _ \<Rightarrow> False)"
proof -
  have compiles: "compileLine 0 ''/build/'' = Inr (Some (the (projr (compileLine 0 ''/build/''))))"
    by code_simp
  have rooted: "isRootRelative (the (projr (compileLine 0 ''/build/'')))"
    by code_simp
  have computed:
    "(case compileLine 0 ''/build/'' of
        Inr (Some p) \<Rightarrow> isRootRelative p \<and> pattern p = ''build''
          \<and> CHR ''['' \<notin> set (pattern p) \<and> \<not> doubleStar (pattern p)
          \<and> matchPattern (pattern p) p = Inr True
          \<and> matchPattern (pattern p @ slash # ''x.txt'') p = Inr True
          \<and> matchPattern (''nested'' @ slash # pattern p @ slash # ''x.txt'') p = Inr False
          \<and> \<not> prefix (pattern p @ ''/'') (''nested'' @ slash # pattern p @ slash # ''x.txt'')
      | _ \<Rightarrow> False)"
    by code_simp
  show ?thesis
    using C3_root_anchoring [OF compiles rooted, of "''x.txt''" "''nested/build/x.txt''" "''nested''"]
      computed
    apply -
    apply assumption
    done
qed

text \<open>
  C3 as stated fails. For a prefix \<open>a\<close> that is \<open>P\<close> itself the two halves of the claim
  meet: the pattern \<open>/build\<close> matches \<open>build/build/x.txt\<close>, which lies under the entry
  \<open>build\<close> of the root. And a root-relative pattern with \<open>**\<close> reaches below other
  entries: the pattern \<open>/**b**\<close> matches \<open>q/**b**/x\<close>, which does not begin with the text
  of the pattern.
\<close>

theorem C3_under_root_entry_counterexample:
  "(case compileLine 0 ''/build'' of
      Inr (Some p) \<Rightarrow> isRootRelative p \<and> pattern p = ''build''
        \<and> matchPattern (''build'' @ slash # pattern p @ slash # ''x.txt'') p = Inr True
    | _ \<Rightarrow> False)
  \<and> (case NewPatternMatcher [''/build''] of
      Inl e \<Rightarrow> False
    | Inr pm \<Rightarrow> Matches pm ''build/build/x.txt'' = Inr True)
  \<and> (case compileLine 0 ''/**b**'' of
      Inr (Some p) \<Rightarrow> isRootRelative p \<and> pattern p = ''**b**''
        \<and> matchPattern (''q'' @ slash # pattern p @ slash # ''x'') p = Inr True
        \<and> \<not> prefix (pattern p @ ''/'') (''q'' @ slash # pattern p @ slash # ''x'')
    | _ \<Rightarrow> False)"
  by code_simp

text \<open>
  The same holds of a bracket expression that excludes characters, since it matches
  \<open>/\<close>: the pattern \<open>/*[^x]*[^x]*\<close> matches \<open>q/*[^x]*[^x]*/y\<close>.
\<close>

lemma root_relative_bracket_reaches_below:
  "(case compileLine 0 ''/*[^x]*[^x]*'' of
      Inr (Some p) \<Rightarrow> isRootRelative p \<and> pattern p = ''*[^x]*[^x]*''
        \<and> matchPattern (''q'' @ slash # pattern p @ slash # ''y'') p = Inr True
    | _ \<Rightarrow> False)"
  by code_simp

text \<open>
  C5. The claim fails at the line it names: the line \<open>[z-a]\<close> is no lone \<open>!\<close> and its
  body is not empty, \<open>BuildRegex\<close> copies the bracket expression into the expression
  unchanged, \<open>regexp.Compile\<close> refuses the range that runs backwards, and
  \<open>NewPatternMatcher\<close> returns that error, also when the line stands among others. The
  bracket expression \<open>[a-z]\<close> is accepted, and so is the bracket that is never closed,
  which \<open>BuildRegex\<close> writes as a literal: the line \<open>[z-a\<close> matches the file of that
  name.
\<close>

theorem C5_bracket_range_refused:
  "NewPatternMatcher [''[z-a]''] = Inl (RegexFailed ''[z-a]'' 1 (CompileFailed ErrInvalidCharRange))
   \<and> NewPatternMatcher [''*.log'', ''file[z-a].txt'']
       = Inl (RegexFailed ''file[z-a].txt'' 2 (CompileFailed ErrInvalidCharRange))
   \<and> BuildRegex ''[z-a]'' = Inl (CompileFailed ErrInvalidCharRange)
   \<and> TrimSpace ''[z-a]'' = ''[z-a]''
   \<and> (case NewPatternMatcher [''[a-z]''] of
         Inr pm \<Rightarrow> Matches pm ''q'' = Inr True \<and> Matches pm ''Q'' = Inr False
       | Inl e \<Rightarrow> False)
   \<and> (case NewPatternMatcher [''[z-a''] of
         Inr pm \<Rightarrow> Matches pm ''[z-a'' = Inr True \<and> Matches pm ''z'' = Inr False
       | Inl e \<Rightarrow> False)"
  by code_simp

text \<open>
  C9. The claim fails where the path has a line feed: \<open>BuildRegex\<close> writes \<open>.*\<close> for
  \<open>**\<close>, and under the flags of \<open>regexp.Compile\<close> the dot does not match a line feed,
  while the class \<open>[^/]\<close> written for \<open>*\<close> does. So \<open>**\<close> does not match the file name
  \<open>a\<close>, line feed, \<open>b\<close>, which \<open>*\<close> matches; on paths without line feed \<open>**\<close> matches
  across \<open>/\<close> (see \<open>MatchString_patternRegex\<close> for every pattern without bracket
  expression).
\<close>

theorem C9_double_star_stops_at_line_feed:
  "(case NewPatternMatcher [''**''] of
      Inl e \<Rightarrow> False
    | Inr pm \<Rightarrow> Matches pm [CHR ''a'', newline, CHR ''b''] = Inr False
        \<and> Matches pm ''a/b'' = Inr True)
   \<and> (case NewPatternMatcher [''*''] of
      Inl e \<Rightarrow> False
    | Inr pm \<Rightarrow> Matches pm [CHR ''a'', newline, CHR ''b''] = Inr True)
   \<and> (case NewPatternMatcher [''logs/**''] of
      Inl e \<Rightarrow> False
    | Inr pm \<Rightarrow> Matches pm (''logs/'' @ [CHR ''a'', newline, CHR ''b'']) = Inr False
        \<and> Matches pm ''logs/a/b'' = Inr True)
   \<and> (case BuildRegex ''**'' of
      Inl e \<Rightarrow> False
    | Inr re \<Rightarrow> \<not> MatchString re [CHR ''a'', newline, CHR ''b''] \<and> MatchString re ''a/b'')"
  by code_simp

end
